theory Spec2Isabelle
  imports Complex_Main "HOL-Library.Sublist"
begin

section \<open>Exceptions\<close>

text \<open>
  The Python exceptions that the modelled functions raise or dispatch on. Every value of
  this type stands for an instance of Python's \<open>Exception\<close>; a subclass of one of the named
  classes is represented by the constructor of that class. The string carries the message.
\<close>

datatype exn =
    GenerateTaskStoppedError
  | InvokeAuthorizationError string
  | ValidationError string
  | ValueError string
  | TypeError string
  | AttributeError string
  | AppInvokeQuotaExceededError string int
  | StopIteration
  | OtherException string

section \<open>The shared key-value store used by the rate limiter\<close>

text \<open>
  \<open>redis_client\<close> as seen by \<open>rate_limit.py\<close>: string keys holding an integer
  (\<open>SETEX\<close>/\<open>GET\<close>/\<open>EXISTS\<close>) and hash keys holding a field-to-timestamp table
  (\<open>HSET\<close>/\<open>HDEL\<close>/\<open>HLEN\<close>/\<open>HGETALL\<close>). A hash key exists exactly when its table
  has a field. Expiry is not modelled: an expired key is an absent key of the given store.
  Timestamps are written with \<open>str(time.time())\<close> and read back with \<open>float\<close>; the model
  keeps the number.
\<close>

record redis_store =
  values_of :: "string \<rightharpoonup> int"
  hashes_of :: "string \<Rightarrow> (string \<rightharpoonup> real)"

definition setex :: "string \<Rightarrow> int \<Rightarrow> redis_store \<Rightarrow> redis_store" where
  "setex key v r = r\<lparr>values_of := (values_of r)(key \<mapsto> v)\<rparr>"

definition hexists_key :: "string \<Rightarrow> redis_store \<Rightarrow> bool" where
  "hexists_key key r = (hashes_of r key \<noteq> Map.empty)"

definition hlen :: "string \<Rightarrow> redis_store \<Rightarrow> nat" where
  "hlen key r = card (dom (hashes_of r key))"

definition hset :: "string \<Rightarrow> string \<Rightarrow> real \<Rightarrow> redis_store \<Rightarrow> redis_store" where
  "hset key field v r = r\<lparr>hashes_of := (hashes_of r)(key := (hashes_of r key)(field \<mapsto> v))\<rparr>"

definition hdel :: "string \<Rightarrow> string \<Rightarrow> redis_store \<Rightarrow> redis_store" where
  "hdel key field r = r\<lparr>hashes_of := (hashes_of r)(key := (hashes_of r key)(field := None))\<rparr>"

section \<open>RateLimit\<close>

text \<open>
  One \<open>RateLimit\<close> object. \<open>initialized\<close> tells whether \<open>__init__\<close> has run past its two
  early returns; only then do the attributes \<open>client_id\<close>, the two key attributes (functions
  of \<open>client_id\<close>) and \<open>last_recalculate_time\<close> exist on the Python object.
\<close>

record RateLimit =
  max_active_requests :: int
  initialized :: bool
  client_id :: string
  last_recalculate_time :: real

definition MAX_ACTIVE_REQUESTS_KEY :: "string \<Rightarrow> string" where
  "MAX_ACTIVE_REQUESTS_KEY cid = ''dify:rate_limit:'' @ cid @ '':max_active_requests''"

definition ACTIVE_REQUESTS_KEY :: "string \<Rightarrow> string" where
  "ACTIVE_REQUESTS_KEY cid = ''dify:rate_limit:'' @ cid @ '':active_requests''"

definition UNLIMITED_REQUEST_ID :: string where
  "UNLIMITED_REQUEST_ID = ''unlimited_request_id''"

definition REQUEST_MAX_ALIVE_TIME :: real where
  "REQUEST_MAX_ALIVE_TIME = 10 * 60"

definition ACTIVE_REQUESTS_COUNT_FLUSH_INTERVAL :: real where
  "ACTIVE_REQUESTS_COUNT_FLUSH_INTERVAL = 5 * 60"

definition active_requests_key :: "RateLimit \<Rightarrow> string" where
  "active_requests_key self = ACTIVE_REQUESTS_KEY (client_id self)"

definition max_active_requests_key :: "RateLimit \<Rightarrow> string" where
  "max_active_requests_key self = MAX_ACTIVE_REQUESTS_KEY (client_id self)"

definition disabled :: "RateLimit \<Rightarrow> bool" where
  "disabled self = (max_active_requests self \<le> 0)"

text \<open>
  \<open>flush_cache\<close>. The clock is read once per call (\<open>now\<close>). The table left after the
  \<open>HDEL\<close> of the timed-out fields keeps the fields whose age is at most
  \<open>REQUEST_MAX_ALIVE_TIME\<close>.
\<close>

definition reap :: "real \<Rightarrow> (string \<rightharpoonup> real) \<Rightarrow> (string \<rightharpoonup> real)" where
  "reap now request_details =
     (\<lambda>k. case request_details k of
            None \<Rightarrow> None
          | Some v \<Rightarrow> if now - v > REQUEST_MAX_ALIVE_TIME then None else Some v)"

definition flush_cache :: "bool \<Rightarrow> real \<Rightarrow> RateLimit \<Rightarrow> redis_store \<Rightarrow> RateLimit \<times> redis_store" where
  "flush_cache use_local_value now self r =
     (if disabled self then (self, r)
      else
        let self1 = self\<lparr>last_recalculate_time := now\<rparr>;
            (self2, r1) =
              (case values_of r (max_active_requests_key self1) of
                 None \<Rightarrow> (self1, setex (max_active_requests_key self1) (max_active_requests self1) r)
               | Some stored \<Rightarrow>
                   if use_local_value
                   then (self1, setex (max_active_requests_key self1) (max_active_requests self1) r)
                   else (self1\<lparr>max_active_requests := stored\<rparr>, r))
        in if \<not> hexists_key (active_requests_key self2) r1 then (self2, r1)
           else (self2,
                 r1\<lparr>hashes_of := (hashes_of r1)
                      (active_requests_key self2 := reap now (hashes_of r1 (active_requests_key self2)))\<rparr>))"

text \<open>
  The result of a call that may raise: what it returned or raised, together with the object
  and the store as the call left them (a raise does not undo the writes made before it).
\<close>

type_synonym 'a outcome = "(exn + 'a) \<times> RateLimit \<times> redis_store"

text \<open>
  \<open>enter\<close>, with its lazy refresh (\<open>refresh\<close>) and its choice of the request id
  (\<open>effective_request_id\<close>) written as functions of their own. \<open>request_id\<close> is the optional argument, \<open>fresh\<close> the value that
  \<open>gen_request_key()\<close> (a new UUID string) would return, \<open>now\<close> the clock. Reading
  \<open>last_recalculate_time\<close> on an object that was never initialised raises
  \<open>AttributeError\<close>.
\<close>

definition refresh :: "real \<Rightarrow> RateLimit \<Rightarrow> redis_store \<Rightarrow> RateLimit \<times> redis_store" where
  "refresh now self r =
     (if now - last_recalculate_time self > ACTIVE_REQUESTS_COUNT_FLUSH_INTERVAL
      then flush_cache False now self r else (self, r))"

definition effective_request_id :: "string option \<Rightarrow> string \<Rightarrow> string" where
  "effective_request_id request_id fresh =
     (case request_id of None \<Rightarrow> fresh | Some s \<Rightarrow> if s = [] then fresh else s)"

definition enter :: "string option \<Rightarrow> string \<Rightarrow> real \<Rightarrow> RateLimit \<Rightarrow> redis_store \<Rightarrow> string outcome" where
  "enter request_id fresh now self r =
     (if disabled self then (Inr UNLIMITED_REQUEST_ID, self, r)
      else if \<not> initialized self then (Inl (AttributeError ''last_recalculate_time''), self, r)
      else
        let (self1, r1) = refresh now self r;
            rid = effective_request_id request_id fresh;
            active_requests_count = hlen (active_requests_key self1) r1
        in if int active_requests_count \<ge> max_active_requests self1
           then (Inl (AppInvokeQuotaExceededError (client_id self1) (max_active_requests self1)), self1, r1)
           else (Inr rid, self1, hset (active_requests_key self1) rid now r1))"

text \<open>\<open>exit\<close> (named \<open>exit_request\<close> here).\<close>

definition exit_request :: "string \<Rightarrow> RateLimit \<Rightarrow> redis_store \<Rightarrow> unit outcome" where
  "exit_request request_id self r =
     (if request_id = UNLIMITED_REQUEST_ID then (Inr (), self, r)
      else if \<not> initialized self then (Inl (AttributeError ''active_requests_key''), self, r)
      else (Inr (), self, hdel (active_requests_key self) request_id r))"

text \<open>
  \<open>RateLimit(client_id, max_active_requests)\<close>: \<open>__new__\<close> followed by \<open>__init__\<close>.
  \<open>_instance_dict\<close> maps a client id to its one object; an object is identified with its
  slot in that dictionary, so every holder of the object sees an update of the slot. A
  newly allocated object has no attribute until \<open>__init__\<close> assigns
  \<open>max_active_requests\<close>. \<open>__init__\<close> sets \<open>last_recalculate_time\<close> to minus infinity
  and calls \<open>flush_cache\<close> at once, which overwrites it with the clock.
\<close>

type_synonym instance_dict = "string \<rightharpoonup> RateLimit"

definition no_instances :: instance_dict where
  "no_instances = Map.empty"

definition empty_store :: redis_store where
  "empty_store = \<lparr>values_of = Map.empty, hashes_of = (\<lambda>_. Map.empty)\<rparr>"

definition RateLimit_new_init ::
  "string \<Rightarrow> int \<Rightarrow> real \<Rightarrow> instance_dict \<Rightarrow> redis_store \<Rightarrow> instance_dict \<times> redis_store" where
  "RateLimit_new_init cid n now insts r =
     (let obj = (case insts cid of
                   None \<Rightarrow> \<lparr>max_active_requests = n, initialized = False, client_id = [],
                            last_recalculate_time = 0\<rparr>
                 | Some inst \<Rightarrow> inst);
          self = obj\<lparr>max_active_requests := n\<rparr>
      in if disabled self then (insts(cid \<mapsto> self), r)
         else if initialized self then (insts(cid \<mapsto> self), r)
         else
           let (self1, r1) = flush_cache True now (self\<lparr>initialized := True, client_id := cid\<rparr>) r
           in (insts(cid \<mapsto> self1), r1))"

section \<open>RateLimitGenerator\<close>

text \<open>
  The wrapped generator: it yields the chunks of \<open>pending\<close> one by one; once they are used
  up, \<open>next\<close> raises \<open>failure\<close> if there is one (the generator is finished after the
  raise) and \<open>StopIteration\<close> otherwise.
\<close>

record py_generator =
  pending :: "string list"
  failure :: "exn option"

definition next_of :: "py_generator \<Rightarrow> (exn + string) \<times> py_generator" where
  "next_of g =
     (case pending g of
        x # xs \<Rightarrow> (Inr x, g\<lparr>pending := xs\<rparr>)
      | [] \<Rightarrow> (case failure g of
                 Some e \<Rightarrow> (Inl e, g\<lparr>failure := None\<rparr>)
               | None \<Rightarrow> (Inl StopIteration, g)))"

text \<open>
  The wrapper holds a reference to its \<open>RateLimit\<close> object; the object and the store are
  passed in and handed back. The last statement of \<open>close\<close> in the source is the bare
  attribute reference \<open>self.rate_limit.exit\<close>: the method is looked up and not called, so
  the statement has no effect on the object or the store.
\<close>

record RateLimitGenerator =
  generator :: py_generator
  gen_request_id :: string
  is_closed :: bool

definition close ::
  "RateLimitGenerator \<Rightarrow> RateLimit \<Rightarrow> redis_store \<Rightarrow> RateLimitGenerator \<times> RateLimit \<times> redis_store" where
  "close self rate_limit r =
     (if \<not> is_closed self then (self\<lparr>is_closed := True\<rparr>, rate_limit, r)
      else (self, rate_limit, r))"

definition RateLimitGenerator_next ::
  "RateLimitGenerator \<Rightarrow> RateLimit \<Rightarrow> redis_store
   \<Rightarrow> (exn + string) \<times> RateLimitGenerator \<times> RateLimit \<times> redis_store" where
  "RateLimitGenerator_next self rate_limit r =
     (if is_closed self then (Inl StopIteration, self, rate_limit, r)
      else
        case next_of (generator self) of
          (Inr x, g) \<Rightarrow> (Inr x, self\<lparr>generator := g\<rparr>, rate_limit, r)
        | (Inl e, g) \<Rightarrow> (Inl e, close (self\<lparr>generator := g\<rparr>) rate_limit r))"

section \<open>The task registry\<close>

text \<open>
  Modelled from the spec: the enum \<open>InvokeFrom\<close> of \<open>core.app.entities.app_invoke_entities\<close>
  is not among the sources; the spec lists service-api, web-app, explore, debugger and leaves
  room for further members.
\<close>

datatype InvokeFrom = SERVICE_API | WEB_APP | EXPLORE | DEBUGGER | OTHER_INVOKE_FROM string

text \<open>
  \<open>redis_client\<close> as seen by \<open>base_app_queue_manager.py\<close>: string keys with string values.
  The stop flag is stored as the value 1.
\<close>

type_synonym kv_store = "string \<rightharpoonup> string"

definition generate_task_belong_cache_key :: "string \<Rightarrow> string" where
  "generate_task_belong_cache_key task_id = ''generate_task_belong:'' @ task_id"

definition generate_stopped_cache_key :: "string \<Rightarrow> string" where
  "generate_stopped_cache_key task_id = ''generate_task_stopped:'' @ task_id"

definition user_prefix :: "InvokeFrom \<Rightarrow> string" where
  "user_prefix invoke_from = (if invoke_from \<in> {EXPLORE, DEBUGGER} then ''account'' else ''end-user'')"

definition set_stop_flag :: "string \<Rightarrow> InvokeFrom \<Rightarrow> string \<Rightarrow> kv_store \<Rightarrow> kv_store" where
  "set_stop_flag task_id invoke_from user_id redis =
     (case redis (generate_task_belong_cache_key task_id) of
        None \<Rightarrow> redis
      | Some result \<Rightarrow>
          if result \<noteq> user_prefix invoke_from @ ''-'' @ user_id then redis
          else redis(generate_stopped_cache_key task_id \<mapsto> ''1''))"

definition is_stopped :: "string \<Rightarrow> kv_store \<Rightarrow> bool" where
  "is_stopped task_id redis = (redis (generate_stopped_cache_key task_id) \<noteq> None)"

section \<open>Events and the pre-publish check\<close>

text \<open>
  A Python value as the pre-publish check sees it: a dict (its items, key and value), a
  list, a string, or any other object. Of another object the check looks at two things
  only, whether it is an instance of \<open>DeclarativeMeta\<close> and whether it has the attribute
  \<open>_sa_instance_state\<close>; \<open>holds\<close> lists the objects such an object refers to (the
  elements of a tuple or a set, the values of its attributes), which the check never visits.
\<close>

datatype pyobj =
    PyStr string
  | PyObj (is_DeclarativeMeta: bool) (has_sa_instance_state: bool) (holds: "pyobj list")
  | PyDict "(pyobj \<times> pyobj) list"
  | PyList "pyobj list"

definition sqlalchemy_error :: exn where
  "sqlalchemy_error = TypeError
     ''Critical Error: Passing SQLAlchemy Model instances that cause thread safety issues is not allowed.''"

text \<open>
  \<open>_check_for_sqlalchemy_models\<close>. The two \<open>for\<close> loops are the functions \<open>check_values\<close>
  and \<open>check_items\<close>; a raise inside a loop ends the loop. The loop over a dict visits the
  values and ignores the keys. A string, like any object that is neither a dict nor a list,
  goes to the \<open>else\<close> branch, where it passes both tests.
\<close>

fun check_for_sqlalchemy_models :: "pyobj \<Rightarrow> exn + unit"
  and check_values :: "(pyobj \<times> pyobj) list \<Rightarrow> exn + unit"
  and check_items :: "pyobj list \<Rightarrow> exn + unit" where
  "check_for_sqlalchemy_models (PyDict kvs) = check_values kvs"
| "check_for_sqlalchemy_models (PyList items) = check_items items"
| "check_for_sqlalchemy_models (PyObj m s held) = (if m \<or> s then Inl sqlalchemy_error else Inr ())"
| "check_for_sqlalchemy_models (PyStr str) = Inr ()"
| "check_values [] = Inr ()"
| "check_values ((key, v) # kvs) =
     (case check_for_sqlalchemy_models v of Inl e \<Rightarrow> Inl e | Inr _ \<Rightarrow> check_values kvs)"
| "check_items [] = Inr ()"
| "check_items (item # items) =
     (case check_for_sqlalchemy_models item of Inl e \<Rightarrow> Inl e | Inr _ \<Rightarrow> check_items items)"

text \<open>
  Two references the check is compared with. \<open>contains_handle\<close>: some object anywhere in
  the value, through dict keys and values, list items and the objects an object holds, is
  a storage handle. \<open>scanned\<close>: the objects that are reached through dict values and list
  items only, each written as the pair of the two properties the check tests.
\<close>

function contains_handle :: "pyobj \<Rightarrow> bool"
  and contains_handle_items :: "pyobj list \<Rightarrow> bool"
  and contains_handle_pairs :: "(pyobj \<times> pyobj) list \<Rightarrow> bool" where
  "contains_handle (PyStr str) = False"
| "contains_handle (PyObj m s held) = (m \<or> s \<or> contains_handle_items held)"
| "contains_handle (PyDict kvs) = contains_handle_pairs kvs"
| "contains_handle (PyList items) = contains_handle_items items"
| "contains_handle_items [] = False"
| "contains_handle_items (item # items) = (contains_handle item \<or> contains_handle_items items)"
| "contains_handle_pairs [] = False"
| "contains_handle_pairs ((key, v) # kvs) =
     (contains_handle key \<or> contains_handle v \<or> contains_handle_pairs kvs)"
  by pat_completeness auto
termination
  by (relation "measure (\<lambda>x. case x of
                   Inl p \<Rightarrow> 2 * size p
                 | Inr (Inl items) \<Rightarrow> 2 * size_list size items + 1
                 | Inr (Inr kvs) \<Rightarrow> 2 * size_list (size_prod size size) kvs + 1)")
     auto

fun scanned :: "pyobj \<Rightarrow> (bool \<times> bool) list" where
  "scanned (PyStr str) = [(False, False)]"
| "scanned (PyObj m s held) = [(m, s)]"
| "scanned (PyDict kvs) = concat (map (\<lambda>kv. scanned (snd kv)) kvs)"
| "scanned (PyList items) = concat (map scanned items)"

definition storage_handle :: "bool \<times> bool \<Rightarrow> bool" where
  "storage_handle x = (fst x \<or> snd x)"

text \<open>
  An exception object as the worker hands it to \<open>publish_error\<close>: the exception, and
  whether the object has the attribute \<open>_sa_instance_state\<close>.
\<close>

record exception_object =
  exc_value :: exn
  carries_sa_instance_state :: bool

text \<open>
  Modelled from the spec: the event classes of \<open>core.app.entities.queue_entities\<close> are not
  among the sources. The spec's \<open>Stop{reason}\<close>, \<open>Ping{}\<close> and \<open>Error{cause}\<close> are the
  three events the sources construct; every other kind is \<open>QueueOtherEvent\<close>, given by
  its name and the items of its \<open>model_dump()\<close>. In the dump of a Stop or Ping event every
  field is an enum member, a plain object. The dump of an Error event holds, under
  \<open>error\<close>, the exception object itself.
\<close>

datatype StopBy = USER_MANUAL | OTHER_STOP_BY string

datatype AppQueueEvent =
    QueueStopEvent StopBy
  | QueuePingEvent
  | QueueErrorEvent exception_object
  | QueueOtherEvent string "(pyobj \<times> pyobj) list"

definition plain :: pyobj where
  "plain = PyObj False False []"

fun model_dump :: "AppQueueEvent \<Rightarrow> pyobj" where
  "model_dump (QueueStopEvent stopped_by) =
     PyDict [(PyStr ''event'', plain), (PyStr ''stopped_by'', plain)]"
| "model_dump QueuePingEvent = PyDict [(PyStr ''event'', plain)]"
| "model_dump (QueueErrorEvent error) =
     PyDict [(PyStr ''event'', plain),
             (PyStr ''error'', PyObj False (carries_sa_instance_state error) [])]"
| "model_dump (QueueOtherEvent name dumped) = PyDict dumped"

section \<open>AppQueueManager\<close>

datatype PublishFrom = APPLICATION_MANAGER | TASK_PIPELINE

text \<open>
  The channel \<open>self._q\<close>: the messages waiting, oldest first; \<open>None\<close> is the close
  sentinel.
\<close>

type_synonym channel = "AppQueueEvent option list"

record AppQueueManager =
  self_task_id :: string
  self_user_id :: string
  self_invoke_from :: InvokeFrom
  self_q :: channel

definition AppQueueManager_init ::
  "string \<Rightarrow> string \<Rightarrow> InvokeFrom \<Rightarrow> kv_store \<Rightarrow> exn + (AppQueueManager \<times> kv_store)" where
  "AppQueueManager_init task_id user_id invoke_from redis =
     (if user_id = [] then Inl (ValueError ''user is required'')
      else Inr (\<lparr>self_task_id = task_id, self_user_id = user_id, self_invoke_from = invoke_from,
                 self_q = []\<rparr>,
                redis(generate_task_belong_cache_key task_id
                        \<mapsto> user_prefix invoke_from @ ''-'' @ user_id)))"

text \<open>
  Modelled from the spec: \<open>_publish\<close> is abstract in \<open>AppQueueManager\<close> and its
  implementations are not among the sources; by the spec, publishing appends the event to
  the internal channel.
\<close>

definition publish_impl :: "AppQueueEvent \<Rightarrow> PublishFrom \<Rightarrow> channel \<Rightarrow> channel" where
  "publish_impl event pub_from q = q @ [Some event]"

text \<open>\<open>publish\<close>: a raise of the check leaves the channel as it was (\<open>Inl\<close>).\<close>

definition publish :: "AppQueueEvent \<Rightarrow> PublishFrom \<Rightarrow> channel \<Rightarrow> exn + channel" where
  "publish event pub_from q =
     (case check_for_sqlalchemy_models (model_dump event) of
        Inl e \<Rightarrow> Inl e
      | Inr _ \<Rightarrow> Inr (publish_impl event pub_from q))"

definition publish_error :: "exception_object \<Rightarrow> PublishFrom \<Rightarrow> channel \<Rightarrow> exn + channel" where
  "publish_error e pub_from q = publish (QueueErrorEvent e) pub_from q"

definition stop_listen :: "channel \<Rightarrow> channel" where
  "stop_listen q = q @ [None]"

subsection \<open>listen\<close>

text \<open>
  What one pass of the \<open>while\<close> loop reads from its surroundings: \<open>arrivals\<close> are the
  messages other execution contexts put on the channel after the previous pass and before
  this pass's \<open>get\<close> returns; \<open>elapsed_time\<close> is \<open>time.time() - start_time\<close> as computed
  in the \<open>finally\<close> clause; \<open>stopped\<close> is what \<open>_is_stopped()\<close> reads there.
\<close>

record poll_env =
  arrivals :: channel
  elapsed_time :: real
  stopped :: bool

record listen_state =
  chan :: channel
  last_ping_time :: int
  yielded :: "AppQueueEvent list"

text \<open>
  The \<open>finally\<close> clause of one pass; \<open>listen_timeout\<close> is the configured
  \<open>APP_MAX_EXECUTION_TIME\<close>. \<open>elapsed_time // 10\<close> is the floor of the quotient.
\<close>

definition finally_clause :: "int \<Rightarrow> poll_env \<Rightarrow> listen_state \<Rightarrow> exn + listen_state" where
  "finally_clause listen_timeout env s =
     (case (if elapsed_time env \<ge> real_of_int listen_timeout \<or> stopped env
            then publish (QueueStopEvent USER_MANUAL) TASK_PIPELINE (chan s)
            else Inr (chan s)) of
        Inl e \<Rightarrow> Inl e
      | Inr q1 \<Rightarrow>
          if \<lfloor>elapsed_time env / 10\<rfloor> > last_ping_time s
          then (case publish QueuePingEvent TASK_PIPELINE q1 of
                  Inl e \<Rightarrow> Inl e
                | Inr q2 \<Rightarrow> Inr (s\<lparr>chan := q2, last_ping_time := \<lfloor>elapsed_time env / 10\<rfloor>\<rparr>))
          else Inr (s\<lparr>chan := q1\<rparr>))"

text \<open>
  The loop, one pass per element of the list of surroundings. \<open>Terminated\<close>: the loop left
  through \<open>break\<close>. \<open>Polling\<close>: the list is used up and the loop is still running.
  \<open>Raised\<close>: an exception left the generator. The consumer is taken to resume the generator
  after every \<open>yield\<close>, which is when the \<open>finally\<close> clause of that pass runs.
\<close>

datatype listen_status = Terminated | Polling | Raised exn

fun listen_loop :: "int \<Rightarrow> poll_env list \<Rightarrow> listen_state \<Rightarrow> listen_status \<times> listen_state" where
  "listen_loop listen_timeout [] s = (Polling, s)"
| "listen_loop listen_timeout (env # envs) s =
     (case chan s @ arrivals env of
        [] \<Rightarrow>
          (case finally_clause listen_timeout env (s\<lparr>chan := []\<rparr>) of
             Inl e \<Rightarrow> (Raised e, s\<lparr>chan := []\<rparr>)
           | Inr s1 \<Rightarrow> listen_loop listen_timeout envs s1)
      | None # rest \<Rightarrow>
          (case finally_clause listen_timeout env (s\<lparr>chan := rest\<rparr>) of
             Inl e \<Rightarrow> (Raised e, s\<lparr>chan := rest\<rparr>)
           | Inr s1 \<Rightarrow> (Terminated, s1))
      | Some message # rest \<Rightarrow>
          (case finally_clause listen_timeout env (s\<lparr>chan := rest, yielded := yielded s @ [message]\<rparr>) of
             Inl e \<Rightarrow> (Raised e, s\<lparr>chan := rest, yielded := yielded s @ [message]\<rparr>)
           | Inr s1 \<Rightarrow> listen_loop listen_timeout envs s1))"

definition listen :: "int \<Rightarrow> poll_env list \<Rightarrow> channel \<Rightarrow> listen_status \<times> listen_state" where
  "listen listen_timeout envs q =
     listen_loop listen_timeout envs \<lparr>chan = q, last_ping_time = 0, yielded = []\<rparr>"

text \<open>
  One pass of the loop taken apart, for the proofs: what the \<open>finally\<close> clause appends
  (\<open>stop_part\<close>, \<open>ping_part\<close>), the state after the \<open>get\<close> and the \<open>yield\<close>
  (\<open>after_get\<close>), and the state after the whole pass (\<open>one_pass\<close>). The lemmas
  \<open>finally_clause_Inr\<close> and \<open>listen_loop_Cons\<close> below show that the loop is made of
  these parts.
\<close>

definition stop_part :: "int \<Rightarrow> poll_env \<Rightarrow> channel" where
  "stop_part listen_timeout env =
     (if real_of_int listen_timeout \<le> elapsed_time env \<or> stopped env
      then [Some (QueueStopEvent USER_MANUAL)] else [])"

definition ping_part :: "poll_env \<Rightarrow> int \<Rightarrow> channel" where
  "ping_part env announced =
     (if announced < \<lfloor>elapsed_time env / 10\<rfloor> then [Some QueuePingEvent] else [])"

definition after_get :: "poll_env \<Rightarrow> listen_state \<Rightarrow> listen_state" where
  "after_get env s =
     (case chan s @ arrivals env of
        [] \<Rightarrow> s\<lparr>chan := []\<rparr>
      | None # rest \<Rightarrow> s\<lparr>chan := rest\<rparr>
      | Some message # rest \<Rightarrow> s\<lparr>chan := rest, yielded := yielded s @ [message]\<rparr>)"

definition one_pass :: "int \<Rightarrow> poll_env \<Rightarrow> listen_state \<Rightarrow> listen_state" where
  "one_pass listen_timeout env s =
     (after_get env s)
       \<lparr>chan := chan (after_get env s) @ stop_part listen_timeout env
                  @ ping_part env (last_ping_time s),
        last_ping_time := max (last_ping_time s) \<lfloor>elapsed_time env / 10\<rfloor>\<rparr>"

text \<open>
  Everything that is on the channel or was yielded, oldest first, and the number of
  occurrences of an event in it.
\<close>

definition seen :: "listen_state \<Rightarrow> channel" where
  "seen s = map Some (yielded s) @ chan s"

definition occurrences :: "AppQueueEvent \<Rightarrow> channel \<Rightarrow> nat" where
  "occurrences event q = count_list q (Some event)"

text \<open>A pass that observes neither the max execution time reached nor the stop flag set.\<close>

definition quiet :: "int \<Rightarrow> poll_env \<Rightarrow> bool" where
  "quiet listen_timeout env = (elapsed_time env < real_of_int listen_timeout \<and> \<not> stopped env)"

section \<open>The worker boundary\<close>

text \<open>
  \<open>_generate_worker\<close>. \<open>app_context\<close> is what entering \<open>flask_app.app_context()\<close>
  raises, if anything; \<open>body\<close> stands for the statements of the \<open>try\<close> block (loading
  the conversation and the message, then \<open>runner.run\<close>): given the channel, it returns or
  raises, and leaves the channel with what it published; \<open>session_close\<close> is what
  \<open>db.session.close()\<close> in the \<open>finally\<close> clause raises, if anything. An exception raised
  by a handler leaves the \<open>try\<close> statement after the \<open>finally\<close> clause has run, and an
  exception of the \<open>finally\<close> clause replaces it. The result is \<open>Inl\<close> when an exception
  leaves the worker and \<open>Inr\<close> with the channel when the worker returns. The message of the
  replacement \<open>InvokeAuthorizationError\<close> is a Chinese sentence in the source; its meaning
  is given here.
\<close>

definition incorrect_api_key_message :: string where
  "incorrect_api_key_message = ''Incorrect API key provided''"

definition generate_worker ::
  "exn option \<Rightarrow> (channel \<Rightarrow> (exception_object + unit) \<times> channel) \<Rightarrow> exn option \<Rightarrow> channel
   \<Rightarrow> exn + channel" where
  "generate_worker app_context body session_close q =
     (case app_context of
        Some x \<Rightarrow> Inl x
      | None \<Rightarrow>
          let handled =
                (case body q of
                   (Inr _, q1) \<Rightarrow> Inr q1
                 | (Inl e, q1) \<Rightarrow>
                     (case exc_value e of
                        GenerateTaskStoppedError \<Rightarrow> Inr q1
                      | InvokeAuthorizationError _ \<Rightarrow>
                          publish_error
                            \<lparr>exc_value = InvokeAuthorizationError incorrect_api_key_message,
                              carries_sa_instance_state = False\<rparr>
                            APPLICATION_MANAGER q1
                      | ValidationError _ \<Rightarrow> publish_error e APPLICATION_MANAGER q1
                      | ValueError _ \<Rightarrow> publish_error e APPLICATION_MANAGER q1
                      | _ \<Rightarrow> publish_error e APPLICATION_MANAGER q1))
          in case session_close of Some x \<Rightarrow> Inl x | None \<Rightarrow> handled)"

section \<open>Properties of the rate limiter\<close>

subsection \<open>Disabled mode\<close>

text \<open>
  C9. On a limiter whose ceiling is at most 0, every \<open>enter\<close> returns the unlimited
  sentinel id whatever the store holds and leaves the object and the store as they were, so it
  never raises the quota error; \<open>exit\<close> on the sentinel id returns without touching the
  store.
\<close>

theorem disabled_is_noop:
  assumes "max_active_requests self \<le> 0"
  shows "enter request_id fresh now self r = (Inr UNLIMITED_REQUEST_ID, self, r)
       \<and> exit_request UNLIMITED_REQUEST_ID self r = (Inr (), self, r)"
  using assms by (simp add: enter_def exit_request_def disabled_def)

theorem disabled_is_noop_witness:
  "max_active_requests \<lparr>max_active_requests = 0, initialized = False, client_id = [],
                         last_recalculate_time = 0\<rparr> \<le> 0
   \<and> enter (Some ''r1'') ''u1'' 42
        \<lparr>max_active_requests = 0, initialized = False, client_id = [], last_recalculate_time = 0\<rparr>
        \<lparr>values_of = Map.empty, hashes_of = (\<lambda>_. Map.empty)\<rparr>
      = (Inr UNLIMITED_REQUEST_ID,
         \<lparr>max_active_requests = 0, initialized = False, client_id = [], last_recalculate_time = 0\<rparr>,
         \<lparr>values_of = Map.empty, hashes_of = (\<lambda>_. Map.empty)\<rparr>)"
  using disabled_is_noop [of "\<lparr>max_active_requests = 0, initialized = False, client_id = [],
                         last_recalculate_time = 0\<rparr>" "Some ''r1''" "''u1''" 42
                         "\<lparr>values_of = Map.empty, hashes_of = (\<lambda>_. Map.empty)\<rparr>"]
  by simp

subsection \<open>What a refresh can change\<close>

lemma flush_cache_client_id: "flush_cache u now self r = (self1, r1) \<Longrightarrow> client_id self1 = client_id self"
  by (auto simp: flush_cache_def Let_def split: if_splits option.splits prod.splits)

lemma refresh_client_id: "refresh now self r = (self1, r1) \<Longrightarrow> client_id self1 = client_id self"
  by (auto simp: refresh_def dest: flush_cache_client_id split: if_splits)

lemma dom_reap: "dom (reap now h) \<subseteq> dom h"
  by (auto simp: reap_def split: option.splits if_splits)

lemma reap_Some: "reap now h k = Some v \<Longrightarrow> h k = Some v"
  by (auto simp: reap_def split: option.splits if_splits)

lemma flush_cache_dom:
  "flush_cache u now self r = (self1, r1) \<Longrightarrow> dom (hashes_of r1 k) \<subseteq> dom (hashes_of r k)"
proof -
  assume a: "flush_cache u now self r = (self1, r1)"
  have "hashes_of r1 k = hashes_of r k \<or> hashes_of r1 k = reap now (hashes_of r k)"
    using a
    by (auto simp: flush_cache_def Let_def setex_def split: if_splits option.splits prod.splits)
  then show ?thesis using reap_Some [of now "hashes_of r k"] by (auto simp: dom_def)
qed

lemma refresh_dom:
  "refresh now self r = (self1, r1) \<Longrightarrow> dom (hashes_of r1 k) \<subseteq> dom (hashes_of r k)"
  using flush_cache_dom by (auto simp: refresh_def split: if_splits)

lemma hlen_hdel:
  "finite (dom (hashes_of r key)) \<Longrightarrow> request_id \<in> dom (hashes_of r key)
   \<Longrightarrow> Suc (hlen key (hdel key request_id r)) = hlen key r"
proof -
  assume fin: "finite (dom (hashes_of r key))" and mem: "request_id \<in> dom (hashes_of r key)"
  have "dom (hashes_of (hdel key request_id r) key) = dom (hashes_of r key) - {request_id}"
    by (auto simp: hdel_def)
  then show ?thesis
    using card.remove [OF fin mem] by (simp add: hlen_def)
qed


lemma hashes_of_hset: "hashes_of (hset key f v r) key f = Some v"
  by (simp add: hset_def)

subsection \<open>Admission, rejection and slot reuse\<close>

text \<open>
  C5. On an enabled, initialised limiter, let \<open>(self1, r1)\<close> be the object and the store
  after the lazy refresh of \<open>enter\<close>. If the number of active members of \<open>r1\<close> is at least
  the ceiling of \<open>self1\<close>, \<open>enter\<close> raises \<open>AppInvokeQuotaExceededError\<close> and leaves the
  store \<open>r1\<close>, whose members are among those of the store before the call: no membership
  is recorded. Otherwise \<open>enter\<close> returns the request id (the given one, or a generated one
  if none or an empty one was given) and the store maps that id to the current time.
  Slot reuse: if \<open>exit\<close> is called for a recorded id other than the sentinel, the record
  is gone, and provided the number of records before the \<open>exit\<close> did not exceed the ceiling
  in force at the next \<open>enter\<close>, that \<open>enter\<close> succeeds.
\<close>

theorem enter_admission_control:
  assumes enabled: "0 < max_active_requests self" and init: "initialized self"
    and rf: "refresh now self r = (self1, r1)"
  shows "(if int (hlen (active_requests_key self) r1) \<ge> max_active_requests self1
          then enter request_id fresh now self r
                 = (Inl (AppInvokeQuotaExceededError (client_id self) (max_active_requests self1)), self1, r1)
               \<and> dom (hashes_of r1 (active_requests_key self)) \<subseteq> dom (hashes_of r (active_requests_key self))
          else \<exists>r2. enter request_id fresh now self r
                       = (Inr (effective_request_id request_id fresh), self1, r2)
                 \<and> hashes_of r2 (active_requests_key self) (effective_request_id request_id fresh) = Some now)
       \<and> (\<forall>rid now2 self2 r2.
            rid \<noteq> UNLIMITED_REQUEST_ID \<and> rid \<in> dom (hashes_of r (active_requests_key self))
            \<and> finite (dom (hashes_of r (active_requests_key self)))
            \<and> refresh now2 self (snd (snd (exit_request rid self r))) = (self2, r2)
            \<and> int (hlen (active_requests_key self) r) \<le> max_active_requests self2
            \<longrightarrow> rid \<notin> dom (hashes_of (snd (snd (exit_request rid self r))) (active_requests_key self))
              \<and> fst (enter request_id fresh now2 self (snd (snd (exit_request rid self r))))
                  = Inr (effective_request_id request_id fresh))"
proof -
  have key: "active_requests_key self1 = active_requests_key self"
    using refresh_client_id [OF rf] by (simp add: active_requests_key_def)
  have cid: "client_id self1 = client_id self"
    using refresh_client_id [OF rf] .
  have nd: "\<not> disabled self" using enabled by (simp add: disabled_def)
  have part1: "int (hlen (active_requests_key self) r1) \<ge> max_active_requests self1 \<Longrightarrow>
      enter request_id fresh now self r
        = (Inl (AppInvokeQuotaExceededError (client_id self) (max_active_requests self1)), self1, r1)"
    using nd init rf key cid by (simp add: enter_def Let_def)
  have part1b: "dom (hashes_of r1 (active_requests_key self)) \<subseteq> dom (hashes_of r (active_requests_key self))"
    using refresh_dom [OF rf] .
  have part2: "\<not> int (hlen (active_requests_key self) r1) \<ge> max_active_requests self1 \<Longrightarrow>
      enter request_id fresh now self r
        = (Inr (effective_request_id request_id fresh), self1,
           hset (active_requests_key self) (effective_request_id request_id fresh) now r1)"
    using nd init rf key by (simp add: enter_def Let_def)
  have part3: "rid \<notin> dom (hashes_of (snd (snd (exit_request rid self r))) (active_requests_key self))
              \<and> fst (enter request_id fresh now2 self (snd (snd (exit_request rid self r))))
                  = Inr (effective_request_id request_id fresh)"
    if h: "rid \<noteq> UNLIMITED_REQUEST_ID" "rid \<in> dom (hashes_of r (active_requests_key self))"
          "finite (dom (hashes_of r (active_requests_key self)))"
          "refresh now2 self (snd (snd (exit_request rid self r))) = (self2, r2)"
          "int (hlen (active_requests_key self) r) \<le> max_active_requests self2"
    for rid now2 self2 r2
  proof -
    let ?k = "active_requests_key self"
    let ?r' = "hdel ?k rid r"
    have ex: "snd (snd (exit_request rid self r)) = ?r'"
      using h(1) init by (simp add: exit_request_def)
    have gone: "rid \<notin> dom (hashes_of ?r' ?k)" by (simp add: hdel_def)
    have rf2: "refresh now2 self ?r' = (self2, r2)" using h(4) ex by simp
    have key2: "active_requests_key self2 = ?k"
      using refresh_client_id [OF rf2] by (simp add: active_requests_key_def)
    have fin': "finite (dom (hashes_of ?r' ?k))" using h(3) by (simp add: hdel_def)
    have "card (dom (hashes_of r2 ?k)) \<le> card (dom (hashes_of ?r' ?k))"
      using refresh_dom [OF rf2, of ?k] fin' by (rule_tac card_mono)
    then have "hlen ?k r2 \<le> hlen ?k ?r'" by (simp add: hlen_def)
    moreover have "Suc (hlen ?k ?r') = hlen ?k r" using hlen_hdel [OF h(3) h(2)] .
    ultimately have lt: "int (hlen ?k r2) < max_active_requests self2" using h(5) by linarith
    have "fst (enter request_id fresh now2 self ?r') = Inr (effective_request_id request_id fresh)"
      using nd init rf2 key2 lt by (simp add: enter_def Let_def)
    then show ?thesis using gone ex by simp
  qed
  have A: "(if int (hlen (active_requests_key self) r1) \<ge> max_active_requests self1
          then enter request_id fresh now self r
                 = (Inl (AppInvokeQuotaExceededError (client_id self) (max_active_requests self1)), self1, r1)
               \<and> dom (hashes_of r1 (active_requests_key self)) \<subseteq> dom (hashes_of r (active_requests_key self))
          else \<exists>r2. enter request_id fresh now self r
                       = (Inr (effective_request_id request_id fresh), self1, r2)
                 \<and> hashes_of r2 (active_requests_key self) (effective_request_id request_id fresh) = Some now)"
  proof (cases "int (hlen (active_requests_key self) r1) \<ge> max_active_requests self1")
    case True
    then show ?thesis using part1 part1b by simp
  next
    case False
    then show ?thesis using part2 hashes_of_hset by simp
  qed
  from part3 have B: "\<forall>rid now2 self2 r2.
            rid \<noteq> UNLIMITED_REQUEST_ID \<and> rid \<in> dom (hashes_of r (active_requests_key self))
            \<and> finite (dom (hashes_of r (active_requests_key self)))
            \<and> refresh now2 self (snd (snd (exit_request rid self r))) = (self2, r2)
            \<and> int (hlen (active_requests_key self) r) \<le> max_active_requests self2
            \<longrightarrow> rid \<notin> dom (hashes_of (snd (snd (exit_request rid self r))) (active_requests_key self))
              \<and> fst (enter request_id fresh now2 self (snd (snd (exit_request rid self r))))
                  = Inr (effective_request_id request_id fresh)"
    by blast
  from A B show ?thesis by (rule conjI)
qed


theorem enter_admission_control_witness:
  "fst (enter (Some ''b'') ''u'' 110
          \<lparr>max_active_requests = 1, initialized = True, client_id = ''app'', last_recalculate_time = 100\<rparr>
          (hset (ACTIVE_REQUESTS_KEY ''app'') ''a'' 90 empty_store))
     = Inl (AppInvokeQuotaExceededError ''app'' 1)
   \<and> fst (enter (Some ''b'') ''u'' 120
          \<lparr>max_active_requests = 1, initialized = True, client_id = ''app'', last_recalculate_time = 100\<rparr>
          (snd (snd (exit_request ''a''
             \<lparr>max_active_requests = 1, initialized = True, client_id = ''app'', last_recalculate_time = 100\<rparr>
             (hset (ACTIVE_REQUESTS_KEY ''app'') ''a'' 90 empty_store)))))
     = Inr ''b''"
proof -
  let ?S = "\<lparr>max_active_requests = 1, initialized = True, client_id = ''app'', last_recalculate_time = 100\<rparr>"
  let ?R = "hset (ACTIVE_REQUESTS_KEY ''app'') ''a'' 90 empty_store"
  let ?R' = "snd (snd (exit_request ''a'' ?S ?R))"
  have h1: "0 < max_active_requests ?S" by simp
  have h2: "initialized ?S" by simp
  have h3: "refresh 110 ?S ?R = (?S, ?R)"
    by (simp add: refresh_def ACTIVE_REQUESTS_COUNT_FLUSH_INTERVAL_def)
  have h4: "refresh 120 ?S ?R' = (?S, ?R')"
    by (simp add: refresh_def ACTIVE_REQUESTS_COUNT_FLUSH_INTERVAL_def)
  have k: "active_requests_key ?S = ACTIVE_REQUESTS_KEY ''app''"
    by (simp add: active_requests_key_def)
  have d: "dom (hashes_of ?R (ACTIVE_REQUESTS_KEY ''app'')) = {''a''}"
    by (simp add: hset_def empty_store_def)
  have c: "hlen (active_requests_key ?S) ?R = 1"
    using d k by (simp add: hlen_def)
  note T = enter_admission_control [OF h1 h2 h3, of "Some ''b''" "''u''"]
  have first: "fst (enter (Some ''b'') ''u'' 110 ?S ?R) = Inl (AppInvokeQuotaExceededError ''app'' 1)"
    using T c by simp
  have pre: "''a'' \<noteq> UNLIMITED_REQUEST_ID \<and> ''a'' \<in> dom (hashes_of ?R (active_requests_key ?S))
      \<and> finite (dom (hashes_of ?R (active_requests_key ?S)))
      \<and> refresh 120 ?S ?R' = (?S, ?R')
      \<and> int (hlen (active_requests_key ?S) ?R) \<le> max_active_requests ?S"
    using h4 c d k by (simp add: UNLIMITED_REQUEST_ID_def)
  have second: "fst (enter (Some ''b'') ''u'' 120 ?S ?R') = Inr (effective_request_id (Some ''b'') ''u'')"
    using T [THEN conjunct2, rule_format, OF pre] by simp
  show ?thesis using first second by (simp add: effective_request_id_def)
qed

subsection \<open>Construction on an existing object\<close>

text \<open>
  C10 as stated fails: an object first constructed with a ceiling of 0 exists in
  \<open>_instance_dict\<close> but was never initialised, so a later construction with ceiling 5 runs
  the initialisation and writes 5 to the store.
\<close>

theorem construction_writes_store_counterexample:
  "fst (RateLimit_new_init ''app'' 0 0 no_instances empty_store) ''app'' \<noteq> None
   \<and> values_of (snd (RateLimit_new_init ''app'' 0 0 no_instances empty_store))
        (MAX_ACTIVE_REQUESTS_KEY ''app'') = None
   \<and> values_of (snd (RateLimit_new_init ''app'' 5 1
                      (fst (RateLimit_new_init ''app'' 0 0 no_instances empty_store))
                      (snd (RateLimit_new_init ''app'' 0 0 no_instances empty_store))))
        (MAX_ACTIVE_REQUESTS_KEY ''app'') = Some 5"
  by (simp add: RateLimit_new_init_def no_instances_def empty_store_def disabled_def
        flush_cache_def max_active_requests_key_def active_requests_key_def setex_def
        hexists_key_def Let_def)

text \<open>
  C10, amended. When \<open>_instance_dict\<close> holds an initialised object for \<open>cid\<close> (one that an
  earlier construction with a positive ceiling set up), \<open>RateLimit(cid, n)\<close> yields that
  same object with its in-memory ceiling overwritten by \<open>n\<close> and leaves the store as it
  was. With \<open>n \<le> 0\<close> every later \<open>enter\<close> on the object returns the unlimited sentinel and
  changes nothing. With \<open>n > 0\<close> a later \<open>enter\<close> for which no refresh is due admits or
  rejects against \<open>n\<close>; an \<open>enter\<close> for which the refresh is due replaces the ceiling by
  the value the store holds.
\<close>

theorem construction_on_initialized_object:
  assumes "insts cid = Some inst" and "initialized inst"
  shows "RateLimit_new_init cid n now insts r = (insts(cid \<mapsto> inst\<lparr>max_active_requests := n\<rparr>), r)
     \<and> (n \<le> 0 \<longrightarrow> (\<forall>rq fresh t r'.
            enter rq fresh t (inst\<lparr>max_active_requests := n\<rparr>) r'
              = (Inr UNLIMITED_REQUEST_ID, inst\<lparr>max_active_requests := n\<rparr>, r')))
     \<and> (0 < n \<longrightarrow> (\<forall>rq fresh t r'.
            t - last_recalculate_time inst \<le> ACTIVE_REQUESTS_COUNT_FLUSH_INTERVAL \<longrightarrow>
            enter rq fresh t (inst\<lparr>max_active_requests := n\<rparr>) r'
              = (if int (hlen (active_requests_key inst) r') \<ge> n
                 then (Inl (AppInvokeQuotaExceededError (client_id inst) n),
                       inst\<lparr>max_active_requests := n\<rparr>, r')
                 else (Inr (effective_request_id rq fresh), inst\<lparr>max_active_requests := n\<rparr>,
                       hset (active_requests_key inst) (effective_request_id rq fresh) t r'))))
     \<and> (0 < n \<longrightarrow> (\<forall>rq fresh t r' m.
            t - last_recalculate_time inst > ACTIVE_REQUESTS_COUNT_FLUSH_INTERVAL
            \<and> values_of r' (max_active_requests_key inst) = Some m \<longrightarrow>
            max_active_requests (fst (snd (enter rq fresh t (inst\<lparr>max_active_requests := n\<rparr>) r'))) = m))"
proof -
  let ?self = "inst\<lparr>max_active_requests := n\<rparr>"
  have k: "active_requests_key ?self = active_requests_key inst"
    by (simp add: active_requests_key_def)
  have km: "max_active_requests_key ?self = max_active_requests_key inst"
    by (simp add: max_active_requests_key_def)
  have A: "RateLimit_new_init cid n now insts r = (insts(cid \<mapsto> ?self), r)"
    using assms by (simp add: RateLimit_new_init_def Let_def)
  have B: "enter rq fresh t ?self r' = (Inr UNLIMITED_REQUEST_ID, ?self, r')"
    if "n \<le> 0" for rq fresh t r'
    using that by (simp add: enter_def disabled_def)
  have C: "enter rq fresh t ?self r'
              = (if int (hlen (active_requests_key inst) r') \<ge> n
                 then (Inl (AppInvokeQuotaExceededError (client_id inst) n), ?self, r')
                 else (Inr (effective_request_id rq fresh), ?self,
                       hset (active_requests_key inst) (effective_request_id rq fresh) t r'))"
    if "0 < n" "t - last_recalculate_time inst \<le> ACTIVE_REQUESTS_COUNT_FLUSH_INTERVAL"
    for rq fresh t r'
    using that assms(2) k by (simp add: enter_def disabled_def refresh_def Let_def)
  have D: "max_active_requests (fst (snd (enter rq fresh t ?self r'))) = m"
    if "0 < n" "t - last_recalculate_time inst > ACTIVE_REQUESTS_COUNT_FLUSH_INTERVAL"
       "values_of r' (max_active_requests_key inst) = Some m"
    for rq fresh t r' m
  proof -
    obtain self1 r1 where f: "flush_cache False t ?self r' = (self1, r1)"
      by (cases "flush_cache False t ?self r'")
    have m: "max_active_requests self1 = m"
      using f that(1,3) km
      by (auto simp: flush_cache_def disabled_def Let_def max_active_requests_key_def
            split: if_splits prod.splits)
    have rf: "refresh t ?self r' = (self1, r1)"
      using f that(2) by (simp add: refresh_def)
    show ?thesis
      using that(1) assms(2) rf m by (simp add: enter_def disabled_def Let_def)
  qed
  show ?thesis using A B C D by blast
qed

theorem construction_on_initialized_object_witness:
  "RateLimit_new_init ''app'' 0 7
      (no_instances(''app'' \<mapsto> \<lparr>max_active_requests = 3, initialized = True, client_id = ''app'',
                                 last_recalculate_time = 5\<rparr>)) empty_store
     = ((no_instances(''app'' \<mapsto> \<lparr>max_active_requests = 3, initialized = True, client_id = ''app'',
                                 last_recalculate_time = 5\<rparr>))
          (''app'' \<mapsto> \<lparr>max_active_requests = 0, initialized = True, client_id = ''app'',
                        last_recalculate_time = 5\<rparr>), empty_store)
   \<and> fst (enter None ''u'' 8 \<lparr>max_active_requests = 0, initialized = True, client_id = ''app'',
                        last_recalculate_time = 5\<rparr> empty_store) = Inr UNLIMITED_REQUEST_ID"
proof -
  let ?inst = "\<lparr>max_active_requests = 3, initialized = True, client_id = ''app'',
                last_recalculate_time = 5\<rparr>"
  let ?d = "no_instances(''app'' \<mapsto> ?inst)"
  have h1: "?d ''app'' = Some ?inst" by simp
  have h2: "initialized ?inst" by simp
  note T = construction_on_initialized_object [of ?d "''app''" ?inst 0 7 empty_store, OF h1 h2]
  have le: "(0::int) \<le> 0" by simp
  have e: "enter None ''u'' 8 (?inst\<lparr>max_active_requests := 0\<rparr>) empty_store
             = (Inr UNLIMITED_REQUEST_ID, ?inst\<lparr>max_active_requests := 0\<rparr>, empty_store)"
    using T [THEN conjunct2, THEN conjunct1, rule_format, OF le] by blast
  show ?thesis using T [THEN conjunct1] e by simp
qed

subsection \<open>Release by the streaming wrapper\<close>

text \<open>
  C3 (the code does not do what the claim says). A limiter for \<open>app\<close> holds the record
  of request \<open>req\<close>. Closing the wrapper of that request leaves the record in the store,
  and so does a \<open>__next__\<close> on a wrapper whose generator is exhausted or raises: each
  marks the wrapper closed and never calls \<open>exit\<close>.
\<close>

theorem close_keeps_membership_record:
  "hashes_of (snd (snd (close
       \<lparr>generator = \<lparr>pending = [''chunk''], failure = None\<rparr>, gen_request_id = ''req'',
          is_closed = False\<rparr>
       \<lparr>max_active_requests = 1, initialized = True, client_id = ''app'', last_recalculate_time = 0\<rparr>
       (hset (ACTIVE_REQUESTS_KEY ''app'') ''req'' 5 empty_store))))
     (ACTIVE_REQUESTS_KEY ''app'') ''req'' = Some 5
   \<and> RateLimitGenerator_next
       \<lparr>generator = \<lparr>pending = [], failure = None\<rparr>, gen_request_id = ''req'', is_closed = False\<rparr>
       \<lparr>max_active_requests = 1, initialized = True, client_id = ''app'', last_recalculate_time = 0\<rparr>
       (hset (ACTIVE_REQUESTS_KEY ''app'') ''req'' 5 empty_store)
     = (Inl StopIteration,
        \<lparr>generator = \<lparr>pending = [], failure = None\<rparr>, gen_request_id = ''req'', is_closed = True\<rparr>,
        \<lparr>max_active_requests = 1, initialized = True, client_id = ''app'', last_recalculate_time = 0\<rparr>,
        hset (ACTIVE_REQUESTS_KEY ''app'') ''req'' 5 empty_store)
   \<and> RateLimitGenerator_next
       \<lparr>generator = \<lparr>pending = [], failure = Some (ValueError ''boom'')\<rparr>, gen_request_id = ''req'',
          is_closed = False\<rparr>
       \<lparr>max_active_requests = 1, initialized = True, client_id = ''app'', last_recalculate_time = 0\<rparr>
       (hset (ACTIVE_REQUESTS_KEY ''app'') ''req'' 5 empty_store)
     = (Inl (ValueError ''boom''),
        \<lparr>generator = \<lparr>pending = [], failure = None\<rparr>, gen_request_id = ''req'', is_closed = True\<rparr>,
        \<lparr>max_active_requests = 1, initialized = True, client_id = ''app'', last_recalculate_time = 0\<rparr>,
        hset (ACTIVE_REQUESTS_KEY ''app'') ''req'' 5 empty_store)"
  by (simp add: close_def RateLimitGenerator_next_def next_of_def hset_def empty_store_def)

section \<open>Properties of the task registry\<close>

lemma owner_string_inject:
  "user_prefix a @ ''-'' @ u = user_prefix b @ ''-'' @ v \<longleftrightarrow> user_prefix a = user_prefix b \<and> u = v"
  by (auto simp: user_prefix_def)

text \<open>
  C4. Constructing the queue manager of \<open>task_id\<close> records the owner string
  \<open>{prefix}-{user_id}\<close>. On any store that holds this record, a \<open>set_stop_flag\<close> whose
  resolved prefix and user differ from the owner's writes nothing; on any store with no
  record for \<open>task_id\<close> it writes nothing either. In both cases the store is unchanged, so
  what \<open>_is_stopped\<close> reads for the task is unchanged: a flag that was unset stays unset.
\<close>

theorem stop_flag_authorization:
  assumes "AppQueueManager_init task_id user_id invoke_from redis0 = Inr (mgr, redis1)"
  shows "redis1 (generate_task_belong_cache_key task_id)
           = Some (user_prefix invoke_from @ ''-'' @ user_id)
     \<and> (\<forall>redis invoke_from' user_id'.
           (redis (generate_task_belong_cache_key task_id)
              = redis1 (generate_task_belong_cache_key task_id)
            \<and> (user_prefix invoke_from', user_id') \<noteq> (user_prefix invoke_from, user_id))
           \<or> redis (generate_task_belong_cache_key task_id) = None
           \<longrightarrow> set_stop_flag task_id invoke_from' user_id' redis = redis
             \<and> is_stopped task_id (set_stop_flag task_id invoke_from' user_id' redis)
                 = is_stopped task_id redis)"
proof -
  have rec: "redis1 (generate_task_belong_cache_key task_id)
               = Some (user_prefix invoke_from @ ''-'' @ user_id)"
    using assms by (auto simp: AppQueueManager_init_def split: if_splits)
  have noop: "set_stop_flag task_id invoke_from' user_id' redis = redis"
    if "(redis (generate_task_belong_cache_key task_id)
              = redis1 (generate_task_belong_cache_key task_id)
            \<and> (user_prefix invoke_from', user_id') \<noteq> (user_prefix invoke_from, user_id))
           \<or> redis (generate_task_belong_cache_key task_id) = None"
    for redis invoke_from' user_id'
  proof -
    from that show ?thesis
    proof
      assume a: "redis (generate_task_belong_cache_key task_id)
              = redis1 (generate_task_belong_cache_key task_id)
            \<and> (user_prefix invoke_from', user_id') \<noteq> (user_prefix invoke_from, user_id)"
      then have "user_prefix invoke_from @ ''-'' @ user_id \<noteq> user_prefix invoke_from' @ ''-'' @ user_id'"
        using owner_string_inject [of invoke_from user_id invoke_from' user_id'] by auto
      then show ?thesis using a rec by (simp add: set_stop_flag_def)
    next
      assume "redis (generate_task_belong_cache_key task_id) = None"
      then show ?thesis by (simp add: set_stop_flag_def)
    qed
  qed
  show ?thesis using rec noop by simp
qed

theorem stop_flag_authorization_witness:
  "AppQueueManager_init ''X'' ''u2'' SERVICE_API Map.empty
     = Inr (\<lparr>self_task_id = ''X'', self_user_id = ''u2'', self_invoke_from = SERVICE_API, self_q = []\<rparr>,
            [generate_task_belong_cache_key ''X'' \<mapsto> ''end-user-u2''])
   \<and> set_stop_flag ''X'' SERVICE_API ''u1'' [generate_task_belong_cache_key ''X'' \<mapsto> ''end-user-u2'']
       = [generate_task_belong_cache_key ''X'' \<mapsto> ''end-user-u2'']
   \<and> \<not> is_stopped ''X'' (set_stop_flag ''X'' SERVICE_API ''u1''
                            [generate_task_belong_cache_key ''X'' \<mapsto> ''end-user-u2''])"
proof -
  let ?r1 = "[generate_task_belong_cache_key ''X'' \<mapsto> ''end-user-u2'']"
  let ?m = "\<lparr>self_task_id = ''X'', self_user_id = ''u2'', self_invoke_from = SERVICE_API, self_q = []\<rparr>"
  have h: "AppQueueManager_init ''X'' ''u2'' SERVICE_API Map.empty = Inr (?m, ?r1)"
    by (simp add: AppQueueManager_init_def user_prefix_def)
  have pre: "(?r1 (generate_task_belong_cache_key ''X'') = ?r1 (generate_task_belong_cache_key ''X'')
        \<and> (user_prefix SERVICE_API, ''u1'') \<noteq> (user_prefix SERVICE_API, ''u2''))
       \<or> ?r1 (generate_task_belong_cache_key ''X'') = None"
    by simp
  have unset: "\<not> is_stopped ''X'' ?r1"
    by (simp add: is_stopped_def generate_stopped_cache_key_def generate_task_belong_cache_key_def)
  note T = stop_flag_authorization [OF h]
  note T1 = T [THEN conjunct2, THEN spec [where x = "?r1"], THEN spec [where x = SERVICE_API],
                THEN spec [where x = "''u1''"], THEN mp, OF pre]
  have "set_stop_flag ''X'' SERVICE_API ''u1'' ?r1 = ?r1"
    using T1 by (rule conjunct1)
  then show ?thesis using h unset by simp
qed

section \<open>Properties of publishing\<close>

lemma check_scanned:
  "check_for_sqlalchemy_models p
     = (if \<exists>x\<in>set (scanned p). storage_handle x then Inl sqlalchemy_error else Inr ())"
  "check_values kvs
     = (if \<exists>x\<in>set (concat (map (\<lambda>kv. scanned (snd kv)) kvs)). storage_handle x
        then Inl sqlalchemy_error else Inr ())"
  "check_items items
     = (if \<exists>x\<in>set (concat (map scanned items)). storage_handle x
        then Inl sqlalchemy_error else Inr ())"
proof (induction p and kvs and items rule: check_for_sqlalchemy_models_check_values_check_items.induct)
  case (1 kvs)
  then show ?case by simp
next
  case (2 items)
  then show ?case by simp
next
  case (3 m s held)
  then show ?case by (simp add: storage_handle_def)
next
  case (4 str)
  then show ?case by (simp add: storage_handle_def)
next
  case 5
  then show ?case by simp
next
  case (6 key v kvs)
  then show ?case by (auto split: sum.splits if_splits)
next
  case 7
  then show ?case by simp
next
  case (8 item items)
  then show ?case by (auto split: sum.splits if_splits)
qed

lemma scanned_handle_contained:
  "(\<exists>x\<in>set (scanned p). storage_handle x) \<Longrightarrow> contains_handle p"
  "(\<exists>x\<in>set (concat (map scanned items)). storage_handle x) \<Longrightarrow> contains_handle_items items"
  "(\<exists>x\<in>set (concat (map (\<lambda>kv. scanned (snd kv)) kvs)). storage_handle x)
     \<Longrightarrow> contains_handle_pairs kvs"
proof (induction p and items and kvs rule: contains_handle_contains_handle_items_contains_handle_pairs.induct)
  case (1 str)
  then show ?case by (simp add: storage_handle_def)
next
  case (2 m s held)
  then show ?case by (auto simp: storage_handle_def)
next
  case (3 kvs)
  then show ?case by simp
next
  case (4 items)
  then show ?case by simp
next
  case 5
  then show ?case by simp
next
  case (6 item items)
  then show ?case by auto
next
  case 7
  then show ?case by simp
next
  case (8 key v kvs)
  then show ?case by auto
qed

lemma publish_named_events:
  "publish (QueueStopEvent sb) pf q = Inr (q @ [Some (QueueStopEvent sb)])"
  "publish QueuePingEvent pf q = Inr (q @ [Some QueuePingEvent])"
  by (simp_all add: publish_def publish_impl_def plain_def)

lemma publish_error_event:
  "publish_error e pf q
     = (if carries_sa_instance_state e then Inl sqlalchemy_error
        else Inr (q @ [Some (QueueErrorEvent e)]))"
  by (simp add: publish_error_def publish_def publish_impl_def plain_def)

text \<open>
  C6 as stated fails. The dump of this event holds a storage handle (an object with
  \<open>_sa_instance_state\<close>) inside a tuple, an object that is neither a dict nor a list. The
  scan tests the tuple itself and does not look inside, so \<open>publish\<close> raises nothing and
  the event is appended to the channel.
\<close>

theorem publish_appends_hidden_handle_counterexample:
  "contains_handle (model_dump
      (QueueOtherEvent ''chunk'' [(PyStr ''rows'', PyObj False False [PyObj False True []])]))
   \<and> publish (QueueOtherEvent ''chunk'' [(PyStr ''rows'', PyObj False False [PyObj False True []])])
        APPLICATION_MANAGER []
      = Inr [Some (QueueOtherEvent ''chunk''
                     [(PyStr ''rows'', PyObj False False [PyObj False True []])])]"
  by (simp add: publish_def publish_impl_def)

text \<open>
  C6, amended. \<open>publish\<close> scans the dumped payload through the values of its dicts and
  the items of its lists before anything else: if any object reached that way is a storage
  handle (a \<open>DeclarativeMeta\<close> instance or an object with \<open>_sa_instance_state\<close>) it raises
  the \<open>TypeError\<close> and the channel is left as it was; otherwise it hands the event to
  \<open>_publish\<close>. So no event with a handle that the scan reaches is appended through
  \<open>publish\<close>. Every handle the scan reaches is a handle the payload contains; a handle
  held anywhere else (in a tuple, a set, a dict key or an attribute) is not reached.
\<close>

theorem publish_rejects_storage_handles:
  "publish event pub_from q
     = (if \<exists>x\<in>set (scanned (model_dump event)). storage_handle x
        then Inl sqlalchemy_error
        else Inr (publish_impl event pub_from q))
   \<and> ((\<exists>x\<in>set (scanned (model_dump event)). storage_handle x)
        \<longrightarrow> contains_handle (model_dump event))"
  using scanned_handle_contained(1) [of "model_dump event"]
  by (simp add: publish_def check_scanned(1))

theorem publish_rejects_storage_handles_witness:
  "(\<exists>x\<in>set (scanned (model_dump
        (QueueOtherEvent ''chunk''
           [(PyStr ''text'', PyStr ''hello''),
            (PyStr ''refs'', PyList [PyDict [(PyStr ''row'', PyObj False True [])]])]))).
       storage_handle x)
   \<and> contains_handle (model_dump
        (QueueOtherEvent ''chunk''
           [(PyStr ''text'', PyStr ''hello''),
            (PyStr ''refs'', PyList [PyDict [(PyStr ''row'', PyObj False True [])]])]))
   \<and> publish (QueueOtherEvent ''chunk''
                [(PyStr ''text'', PyStr ''hello''),
                 (PyStr ''refs'', PyList [PyDict [(PyStr ''row'', PyObj False True [])]])])
        APPLICATION_MANAGER [Some QueuePingEvent]
      = Inl sqlalchemy_error
   \<and> publish (QueueOtherEvent ''chunk'' [(PyStr ''text'', PyStr ''hello'')])
        APPLICATION_MANAGER [Some QueuePingEvent]
      = Inr [Some QueuePingEvent, Some (QueueOtherEvent ''chunk'' [(PyStr ''text'', PyStr ''hello'')])]"
  using publish_rejects_storage_handles
          [of "QueueOtherEvent ''chunk''
                [(PyStr ''text'', PyStr ''hello''),
                 (PyStr ''refs'', PyList [PyDict [(PyStr ''row'', PyObj False True [])]])]"
              APPLICATION_MANAGER "[Some QueuePingEvent]"]
        publish_rejects_storage_handles
          [of "QueueOtherEvent ''chunk'' [(PyStr ''text'', PyStr ''hello'')]"
              APPLICATION_MANAGER "[Some QueuePingEvent]"]
  by (simp add: storage_handle_def publish_impl_def)

section \<open>Properties of the worker boundary\<close>

text \<open>
  C8 as stated fails. The \<open>try\<close> block raises a \<open>ValueError\<close> whose object carries
  \<open>_sa_instance_state\<close>. The handler calls \<open>publish_error\<close>, whose pre-publish check
  finds the object in the dump of the Error event and raises the \<open>TypeError\<close> inside the
  handler: no Error event is published and the \<open>TypeError\<close> leaves the worker.
\<close>

theorem worker_lets_check_error_escape_counterexample:
  "generate_worker None
      (\<lambda>q. (Inl \<lparr>exc_value = ValueError ''bad'', carries_sa_instance_state = True\<rparr>, q))
      None []
     = Inl sqlalchemy_error"
  by (simp add: generate_worker_def publish_error_event)

text \<open>
  C8, amended. Once the application context is entered, every exception the \<open>try\<close> block
  raises is caught by a handler of the worker. If the block returned, or raised
  \<open>GenerateTaskStoppedError\<close>, no Error event is published and the channel is as the block
  left it. If it raised an \<open>InvokeAuthorizationError\<close>, one Error event carrying a new
  \<open>InvokeAuthorizationError\<close> with a fixed message is appended to the same channel. If it
  raised any other exception whose object does not carry \<open>_sa_instance_state\<close>, one Error
  event carrying that exception is appended. In these cases the worker returns, provided
  \<open>db.session.close()\<close> raises nothing. If the object carries \<open>_sa_instance_state\<close>, the
  pre-publish check raises its \<open>TypeError\<close> inside the handler, no Error event is
  published and the \<open>TypeError\<close> leaves the worker. An exception raised by
  \<open>db.session.close()\<close>, or on entering the application context, leaves the worker too.
\<close>

theorem worker_boundary:
  assumes "body q = (res, q1)"
  shows "(res = Inr () \<or> (\<exists>e. res = Inl e \<and> exc_value e = GenerateTaskStoppedError)
            \<longrightarrow> generate_worker None body None q = Inr q1)
     \<and> (\<forall>e. res = Inl e \<and> (\<exists>m. exc_value e = InvokeAuthorizationError m) \<longrightarrow>
           generate_worker None body None q
             = Inr (q1 @ [Some (QueueErrorEvent
                     \<lparr>exc_value = InvokeAuthorizationError incorrect_api_key_message,
                       carries_sa_instance_state = False\<rparr>)]))
     \<and> (\<forall>e. res = Inl e \<and> exc_value e \<noteq> GenerateTaskStoppedError
              \<and> (\<forall>m. exc_value e \<noteq> InvokeAuthorizationError m) \<longrightarrow>
           generate_worker None body None q
             = (if carries_sa_instance_state e then Inl sqlalchemy_error
                else Inr (q1 @ [Some (QueueErrorEvent e)])))
     \<and> (\<forall>x. generate_worker None body (Some x) q = Inl x)
     \<and> (\<forall>x session_close. generate_worker (Some x) body session_close q = Inl x)"
proof -
  have A: "generate_worker None body None q = Inr q1"
    if "res = Inr () \<or> (\<exists>e. res = Inl e \<and> exc_value e = GenerateTaskStoppedError)"
    using that assms by (auto simp: generate_worker_def)
  have B: "generate_worker None body None q
             = Inr (q1 @ [Some (QueueErrorEvent
                     \<lparr>exc_value = InvokeAuthorizationError incorrect_api_key_message,
                       carries_sa_instance_state = False\<rparr>)])"
    if "res = Inl e" "\<exists>m. exc_value e = InvokeAuthorizationError m" for e
    using that assms by (auto simp: generate_worker_def publish_error_event)
  have C: "generate_worker None body None q
             = (if carries_sa_instance_state e then Inl sqlalchemy_error
                else Inr (q1 @ [Some (QueueErrorEvent e)]))"
    if "res = Inl e" "exc_value e \<noteq> GenerateTaskStoppedError"
       "\<forall>m. exc_value e \<noteq> InvokeAuthorizationError m" for e
    using that assms
    by (cases "exc_value e") (simp_all add: generate_worker_def publish_error_event)
  have D: "generate_worker None body (Some x) q = Inl x" for x
    by (simp add: generate_worker_def)
  have E: "generate_worker (Some x) body session_close q = Inl x" for x session_close
    by (simp add: generate_worker_def)
  show ?thesis using A B C D E by blast
qed

theorem worker_boundary_witness:
  "generate_worker None
      (\<lambda>q. (Inl \<lparr>exc_value = ValueError ''bad'', carries_sa_instance_state = False\<rparr>,
             q @ [Some QueuePingEvent])) None []
     = Inr [Some QueuePingEvent,
            Some (QueueErrorEvent \<lparr>exc_value = ValueError ''bad'', carries_sa_instance_state = False\<rparr>)]
   \<and> generate_worker None
      (\<lambda>q. (Inl \<lparr>exc_value = GenerateTaskStoppedError, carries_sa_instance_state = False\<rparr>,
             q @ [Some QueuePingEvent])) None []
     = Inr [Some QueuePingEvent]"
proof -
  let ?e1 = "\<lparr>exc_value = ValueError ''bad'', carries_sa_instance_state = False\<rparr>"
  let ?e2 = "\<lparr>exc_value = GenerateTaskStoppedError, carries_sa_instance_state = False\<rparr>"
  let ?b1 = "\<lambda>q::channel. (Inl ?e1 :: exception_object + unit, q @ [Some QueuePingEvent])"
  let ?b2 = "\<lambda>q::channel. (Inl ?e2 :: exception_object + unit, q @ [Some QueuePingEvent])"
  have h1: "?b1 [] = (Inl ?e1, [Some QueuePingEvent])" by simp
  have h2: "?b2 [] = (Inl ?e2, [Some QueuePingEvent])" by simp
  from worker_boundary [of ?b1 "[]" "Inl ?e1" "[Some QueuePingEvent]", OF h1]
  have a: "generate_worker None ?b1 None [] = Inr [Some QueuePingEvent, Some (QueueErrorEvent ?e1)]"
    by auto
  from worker_boundary [of ?b2 "[]" "Inl ?e2" "[Some QueuePingEvent]", OF h2]
  have b: "generate_worker None ?b2 None [] = Inr [Some QueuePingEvent]"
    by auto
  show ?thesis using a b by simp
qed

section \<open>Properties of listen\<close>

subsection \<open>One pass\<close>

lemma finally_clause_Inr:
  "finally_clause T env s
     = Inr (s\<lparr>chan := chan s @ stop_part T env @ ping_part env (last_ping_time s),
              last_ping_time := max (last_ping_time s) \<lfloor>elapsed_time env / 10\<rfloor>\<rparr>)"
  by (cases s) (simp add: finally_clause_def publish_named_events stop_part_def ping_part_def max_def)

lemma last_ping_time_after_get: "last_ping_time (after_get env s) = last_ping_time s"
  by (simp add: after_get_def split: list.splits option.splits)

lemma listen_loop_Cons:
  "listen_loop T (env # envs) s
     = (if (\<exists>rest. chan s @ arrivals env = None # rest) then (Terminated, one_pass T env s)
        else listen_loop T envs (one_pass T env s))"
  by (simp add: finally_clause_Inr one_pass_def after_get_def split: list.splits option.splits)

lemma last_ping_time_one_pass:
  "last_ping_time (one_pass T env s) = max (last_ping_time s) \<lfloor>elapsed_time env / 10\<rfloor>"
  by (simp add: one_pass_def)

lemma yielded_one_pass: "yielded (one_pass T env s) = yielded (after_get env s)"
  by (simp add: one_pass_def)

lemma chan_one_pass:
  "chan (one_pass T env s)
     = chan (after_get env s) @ stop_part T env @ ping_part env (last_ping_time s)"
  by (simp add: one_pass_def)

lemma occurrences_append: "occurrences e (xs @ ys) = occurrences e xs + occurrences e ys"
  by (induction xs) (simp_all add: occurrences_def)

lemma occurrences_seen_after_get:
  "occurrences e (seen (after_get env s)) = occurrences e (seen s @ arrivals env)"
proof -
  have a: "occurrences e (seen s @ arrivals env)
             = occurrences e (map Some (yielded s)) + occurrences e (chan s @ arrivals env)"
    by (simp add: seen_def occurrences_append)
  show ?thesis
  proof (cases "chan s @ arrivals env")
    case Nil
    then show ?thesis using a
      by (simp add: after_get_def seen_def occurrences_append occurrences_def)
  next
    case (Cons m rest)
    then show ?thesis using a
      by (cases m) (simp_all add: after_get_def seen_def occurrences_append occurrences_def)
  qed
qed

subsection \<open>The whole loop\<close>

lemma listen_loop_append:
  "listen_loop T (pre @ post) s
     = (if fst (listen_loop T pre s) = Polling then listen_loop T post (snd (listen_loop T pre s))
        else listen_loop T pre s)"
proof (induction pre arbitrary: s)
  case Nil
  show ?case by simp
next
  case (Cons env pre)
  show ?case
    unfolding append_Cons listen_loop_Cons using Cons.IH by simp
qed

lemma listen_loop_never_raises: "fst (listen_loop T envs s) \<noteq> Raised e"
proof (induction envs arbitrary: s)
  case Nil
  show ?case by simp
next
  case (Cons env envs)
  show ?case unfolding listen_loop_Cons using Cons.IH by simp
qed

lemma last_ping_time_polling:
  "listen_loop T pre s = (Polling, s1) \<Longrightarrow>
   last_ping_time s1 < k \<longleftrightarrow> last_ping_time s < k \<and> (\<forall>e\<in>set pre. \<lfloor>elapsed_time e / 10\<rfloor> < k)"
proof (induction pre arbitrary: s)
  case Nil
  then show ?case by simp
next
  case (Cons env pre)
  from Cons.prems have run: "listen_loop T pre (one_pass T env s) = (Polling, s1)"
    unfolding listen_loop_Cons by (simp split: if_splits)
  show ?case
    using Cons.IH [OF run] by (auto simp: last_ping_time_one_pass)
qed

lemma occurrences_one_pass:
  "occurrences e (seen (one_pass T env s))
     = occurrences e (seen s @ arrivals env) + occurrences e (stop_part T env)
       + occurrences e (ping_part env (last_ping_time s))"
proof -
  have "seen (one_pass T env s)
          = seen (after_get env s) @ stop_part T env @ ping_part env (last_ping_time s)"
    by (simp add: seen_def chan_one_pass yielded_one_pass)
  then show ?thesis
    by (simp add: occurrences_append occurrences_seen_after_get)
qed

lemma listen_loop_single: "listen_loop T [env] s = (st, s2) \<Longrightarrow> s2 = one_pass T env s"
  unfolding listen_loop_Cons by (simp split: if_splits)

subsection \<open>Heartbeat\<close>

text \<open>
  C7. Take any run of the loop from state \<open>s\<close> (for \<open>listen\<close>, the state with
  \<open>last_ping_time = 0\<close>) that is still polling after the passes \<open>pre\<close>, and its next pass
  \<open>env\<close>. That pass publishes one Ping if the boundary index \<open>elapsed_time // 10\<close> it
  observes is greater than the initial mark and greater than the index observed by every
  earlier pass, and publishes none otherwise: the number of Pings on the channel or yielded
  grows by exactly that, apart from what other contexts put there. So each boundary gets at
  most one Ping, and a second pass within the same boundary gets none. Once the loop has
  terminated, further surroundings change nothing: no pass runs and nothing is published.
\<close>

theorem heartbeat_once_per_boundary:
  "(listen_loop T pre s = (Polling, s1) \<and> listen_loop T [env] s1 = (st, s2) \<longrightarrow>
      listen_loop T (pre @ [env]) s = (st, s2)
      \<and> occurrences QueuePingEvent (seen s2)
          = occurrences QueuePingEvent (seen s1 @ arrivals env)
            + (if last_ping_time s < \<lfloor>elapsed_time env / 10\<rfloor>
                  \<and> (\<forall>e\<in>set pre. \<lfloor>elapsed_time e / 10\<rfloor> < \<lfloor>elapsed_time env / 10\<rfloor>)
               then 1 else 0))
   \<and> (listen_loop T pre s = (Terminated, s1) \<longrightarrow> listen_loop T (pre @ later) s = (Terminated, s1))"
proof -
  have A: "listen_loop T (pre @ [env]) s = (st, s2)"
    if "listen_loop T pre s = (Polling, s1)" "listen_loop T [env] s1 = (st, s2)"
    using that by (simp add: listen_loop_append)
  have B: "occurrences QueuePingEvent (seen s2)
          = occurrences QueuePingEvent (seen s1 @ arrivals env)
            + (if last_ping_time s < \<lfloor>elapsed_time env / 10\<rfloor>
                  \<and> (\<forall>e\<in>set pre. \<lfloor>elapsed_time e / 10\<rfloor> < \<lfloor>elapsed_time env / 10\<rfloor>)
               then 1 else 0)"
    if h: "listen_loop T pre s = (Polling, s1)" "listen_loop T [env] s1 = (st, s2)"
  proof -
    have s2: "s2 = one_pass T env s1" using listen_loop_single [OF h(2)] .
    have new: "last_ping_time s1 < \<lfloor>elapsed_time env / 10\<rfloor> \<longleftrightarrow>
                 last_ping_time s < \<lfloor>elapsed_time env / 10\<rfloor>
                 \<and> (\<forall>e\<in>set pre. \<lfloor>elapsed_time e / 10\<rfloor> < \<lfloor>elapsed_time env / 10\<rfloor>)"
      using last_ping_time_polling [OF h(1)] .
    have stop: "occurrences QueuePingEvent (stop_part T env) = 0"
      by (simp add: stop_part_def occurrences_def)
    have ping: "occurrences QueuePingEvent (ping_part env (last_ping_time s1))
                  = (if last_ping_time s1 < \<lfloor>elapsed_time env / 10\<rfloor> then 1 else 0)"
      by (simp add: ping_part_def occurrences_def)
    show ?thesis
      unfolding s2 occurrences_one_pass stop ping using new by simp
  qed
  have C: "listen_loop T (pre @ later) s = (Terminated, s1)"
    if "listen_loop T pre s = (Terminated, s1)"
    using that by (simp add: listen_loop_append)
  show ?thesis using A B C by blast
qed

theorem heartbeat_once_per_boundary_witness:
  "listen_loop 100 [\<lparr>arrivals = [], elapsed_time = 12, stopped = False\<rparr>]
       \<lparr>chan = [], last_ping_time = 0, yielded = []\<rparr>
     = (Polling, \<lparr>chan = [Some QueuePingEvent], last_ping_time = 1, yielded = []\<rparr>)
   \<and> listen_loop 100 [\<lparr>arrivals = [], elapsed_time = 15, stopped = False\<rparr>]
       \<lparr>chan = [Some QueuePingEvent], last_ping_time = 1, yielded = []\<rparr>
     = (Polling, \<lparr>chan = [], last_ping_time = 1, yielded = [QueuePingEvent]\<rparr>)
   \<and> listen_loop 100 [\<lparr>arrivals = [], elapsed_time = 12, stopped = False\<rparr>,
                       \<lparr>arrivals = [], elapsed_time = 15, stopped = False\<rparr>]
       \<lparr>chan = [], last_ping_time = 0, yielded = []\<rparr>
     = (Polling, \<lparr>chan = [], last_ping_time = 1, yielded = [QueuePingEvent]\<rparr>)
   \<and> occurrences QueuePingEvent (seen \<lparr>chan = [], last_ping_time = 1, yielded = [QueuePingEvent]\<rparr>)
     = occurrences QueuePingEvent (seen \<lparr>chan = [Some QueuePingEvent], last_ping_time = 1, yielded = []\<rparr> @ [])"
proof -
  let ?s = "\<lparr>chan = [], last_ping_time = 0, yielded = []\<rparr>"
  let ?s1 = "\<lparr>chan = [Some QueuePingEvent], last_ping_time = 1, yielded = []\<rparr>"
  let ?s2 = "\<lparr>chan = [], last_ping_time = 1, yielded = [QueuePingEvent]\<rparr>"
  let ?e1 = "\<lparr>arrivals = [], elapsed_time = 12, stopped = False\<rparr>"
  let ?e2 = "\<lparr>arrivals = [], elapsed_time = 15, stopped = False\<rparr>"
  have h1: "listen_loop 100 [?e1] ?s = (Polling, ?s1)"
    by (simp add: listen_loop_Cons one_pass_def after_get_def stop_part_def ping_part_def del: listen_loop.simps(2))
  have h2: "listen_loop 100 [?e2] ?s1 = (Polling, ?s2)"
    by (simp add: listen_loop_Cons one_pass_def after_get_def stop_part_def ping_part_def del: listen_loop.simps(2))
  note T = heartbeat_once_per_boundary [of 100 "[?e1]" ?s ?s1 ?e2 Polling ?s2, THEN conjunct1, THEN mp,
               OF conjI, OF h1 h2]
  show ?thesis using h1 h2 T by simp
qed

subsection \<open>Stop on timeout or stop flag\<close>

text \<open>
  C2 (the code does not do what the claim says). With a max execution time of 5, a pass
  whose \<open>finally\<close> clause observes 7 elapsed units on an empty channel does what a single
  call of \<open>publish\<close> with the Stop event does, and nothing more: the event is sent once,
  not twice. With \<open>_publish\<close> appending, the channel then holds exactly one Stop event.
  The same holds for a pass that observes the stop flag set before the max time.
\<close>

theorem stop_published_once:
  "finally_clause 5 \<lparr>arrivals = [], elapsed_time = 7, stopped = False\<rparr>
       \<lparr>chan = [], last_ping_time = 0, yielded = []\<rparr>
     = (case publish (QueueStopEvent USER_MANUAL) TASK_PIPELINE [] of
          Inl e \<Rightarrow> Inl e
        | Inr q1 \<Rightarrow> Inr \<lparr>chan = q1, last_ping_time = 0, yielded = []\<rparr>)
   \<and> finally_clause 5 \<lparr>arrivals = [], elapsed_time = 7, stopped = False\<rparr>
       \<lparr>chan = [], last_ping_time = 0, yielded = []\<rparr>
     = Inr \<lparr>chan = [Some (QueueStopEvent USER_MANUAL)], last_ping_time = 0, yielded = []\<rparr>
   \<and> finally_clause 5 \<lparr>arrivals = [], elapsed_time = 1, stopped = True\<rparr>
       \<lparr>chan = [], last_ping_time = 0, yielded = []\<rparr>
     = Inr \<lparr>chan = [Some (QueueStopEvent USER_MANUAL)], last_ping_time = 0, yielded = []\<rparr>"
proof -
  have a: "finally_clause 5 \<lparr>arrivals = [], elapsed_time = 7, stopped = False\<rparr>
       \<lparr>chan = [], last_ping_time = 0, yielded = []\<rparr>
     = (case publish (QueueStopEvent USER_MANUAL) TASK_PIPELINE [] of
          Inl e \<Rightarrow> Inl e
        | Inr q1 \<Rightarrow> Inr \<lparr>chan = q1, last_ping_time = 0, yielded = []\<rparr>)"
    by (simp add: finally_clause_def split: sum.splits)
  have b: "finally_clause 5 \<lparr>arrivals = [], elapsed_time = 7, stopped = False\<rparr>
       \<lparr>chan = [], last_ping_time = 0, yielded = []\<rparr>
     = Inr \<lparr>chan = [Some (QueueStopEvent USER_MANUAL)], last_ping_time = 0, yielded = []\<rparr>"
    by (simp add: finally_clause_Inr stop_part_def ping_part_def)
  have c: "finally_clause 5 \<lparr>arrivals = [], elapsed_time = 1, stopped = True\<rparr>
       \<lparr>chan = [], last_ping_time = 0, yielded = []\<rparr>
     = Inr \<lparr>chan = [Some (QueueStopEvent USER_MANUAL)], last_ping_time = 0, yielded = []\<rparr>"
    by (simp add: finally_clause_Inr stop_part_def ping_part_def)
  show ?thesis using a b c by simp
qed

subsection \<open>Draining in publish order\<close>

text \<open>
  C1 as stated fails. The producer publishes one chunk and the close sentinel only after
  the first pass; that pass finds the channel empty at 12 elapsed units and publishes a
  Ping. The max execution time of 100 is not reached and the stop flag is never set, yet
  the loop yields the Ping ahead of the chunk.
\<close>

theorem listen_yields_heartbeat_counterexample:
  "listen 100 [\<lparr>arrivals = [], elapsed_time = 12, stopped = False\<rparr>,
                \<lparr>arrivals = [Some (QueueOtherEvent ''chunk'' []), None], elapsed_time = 13,
                   stopped = False\<rparr>,
                \<lparr>arrivals = [], elapsed_time = 14, stopped = False\<rparr>,
                \<lparr>arrivals = [], elapsed_time = 15, stopped = False\<rparr>] []
     = (Terminated, \<lparr>chan = [], last_ping_time = 1,
                      yielded = [QueuePingEvent, QueueOtherEvent ''chunk'' []]\<rparr>)"
  by (simp add: listen_def listen_loop_Cons one_pass_def after_get_def stop_part_def ping_part_def
           del: listen_loop.simps(2))

lemma one_pass_quiet:
  "quiet T env \<Longrightarrow> chan (one_pass T env s) = chan (after_get env s) @ ping_part env (last_ping_time s)"
  by (simp add: chan_one_pass stop_part_def quiet_def)

lemma drain_filled:
  "chan s = map Some evs @ None # rest \<Longrightarrow> \<forall>env\<in>set envs. quiet T env
   \<Longrightarrow> length evs < length envs
   \<Longrightarrow> \<exists>s'. listen_loop T envs s = (Terminated, s') \<and> yielded s' = yielded s @ evs"
proof (induction evs arbitrary: s envs rest)
  case Nil
  then obtain env envs' where envs: "envs = env # envs'" by (cases envs) auto
  have "chan s @ arrivals env = None # (rest @ arrivals env)" using Nil.prems(1) by simp
  then show ?case
    unfolding envs listen_loop_Cons
    by (simp add: yielded_one_pass after_get_def)
next
  case (Cons m evs)
  then obtain env envs' where envs: "envs = env # envs'" by (cases envs) auto
  have q: "chan s @ arrivals env = Some m # (map Some evs @ None # (rest @ arrivals env))"
    using Cons.prems(1) by simp
  have qe: "quiet T env" using Cons.prems(2) envs by simp
  have c: "chan (one_pass T env s)
             = map Some evs @ None # (rest @ arrivals env @ ping_part env (last_ping_time s))"
    using q by (simp add: one_pass_quiet [OF qe] after_get_def)
  have y: "yielded (one_pass T env s) = yielded s @ [m]"
    using q by (simp add: yielded_one_pass after_get_def)
  have "\<exists>s'. listen_loop T envs' (one_pass T env s) = (Terminated, s')
            \<and> yielded s' = yielded (one_pass T env s) @ evs"
    using Cons.IH [OF c] Cons.prems(2,3) envs by simp
  then show ?case
    unfolding envs listen_loop_Cons using q y by simp
qed

lemma drain_general:
  "chan s @ concat (map arrivals pre) = map Some evs @ None # rest
   \<Longrightarrow> \<forall>env\<in>set pre. quiet T env \<and> \<lfloor>elapsed_time env / 10\<rfloor> \<le> last_ping_time s
   \<Longrightarrow> \<forall>env\<in>set post. quiet T env
   \<Longrightarrow> length evs < length post
   \<Longrightarrow> \<exists>s'. listen_loop T (pre @ post) s = (Terminated, s') \<and> yielded s' = yielded s @ evs"
proof (induction pre arbitrary: s evs)
  case Nil
  then show ?case using drain_filled [of s evs rest post T] by simp
next
  case (Cons env pre)
  note IH = Cons.IH
  have qe: "quiet T env" and fl: "\<lfloor>elapsed_time env / 10\<rfloor> \<le> last_ping_time s"
    using Cons.prems(2) by simp_all
  have c: "chan (one_pass T env s) = chan (after_get env s)"
    using fl by (simp add: one_pass_quiet [OF qe] ping_part_def)
  have l: "last_ping_time (one_pass T env s) = last_ping_time s"
    using fl by (simp add: last_ping_time_one_pass)
  have rest_ok: "\<forall>e\<in>set pre. quiet T e \<and> \<lfloor>elapsed_time e / 10\<rfloor> \<le> last_ping_time (one_pass T env s)"
    using Cons.prems(2) l by simp
  have all: "(chan s @ arrivals env) @ concat (map arrivals pre) = map Some evs @ None # rest"
    using Cons.prems(1) by simp
  show ?case
  proof (cases "chan s @ arrivals env")
    case Nil
    have c1: "chan (one_pass T env s) @ concat (map arrivals pre) = map Some evs @ None # rest"
      using all Nil c by (simp add: after_get_def)
    have y1: "yielded (one_pass T env s) = yielded s"
      using Nil by (simp add: yielded_one_pass after_get_def)
    from IH [OF c1 rest_ok Cons.prems(3,4)] show ?thesis
      unfolding append_Cons listen_loop_Cons using Nil y1 by simp
  next
    case (Cons m r0)
    note q = Cons
    show ?thesis
    proof (cases m)
      case None
      have "evs = []" using all q None by (cases evs) simp_all
      then show ?thesis
        unfolding append_Cons listen_loop_Cons using q None
        by (simp add: yielded_one_pass after_get_def)
    next
      case (Some ev)
      obtain evs' where evs: "evs = ev # evs'" using all q Some by (cases evs) auto
      have c1: "chan (one_pass T env s) @ concat (map arrivals pre) = map Some evs' @ None # rest"
        using all q Some evs c by (simp add: after_get_def)
      have y1: "yielded (one_pass T env s) = yielded s @ [ev]"
        using q Some by (simp add: yielded_one_pass after_get_def)
      have len: "length evs' < length post" using Cons.prems(4) evs by simp
      from IH [OF c1 rest_ok \<open>\<forall>env\<in>set post. quiet T env\<close> len]
      show ?thesis
        unfolding append_Cons listen_loop_Cons using q Some y1 evs by simp
    qed
  qed
qed

lemma heartbeat_lands_in_sequence:
  "xs @ ys = map Some evs @ None # rest \<Longrightarrow> P = [] \<or> P = [Some QueuePingEvent]
   \<Longrightarrow> \<exists>evs' rest'. xs @ P @ ys = map Some evs' @ None # rest'
          \<and> filter (\<lambda>e. e \<noteq> QueuePingEvent) evs' = filter (\<lambda>e. e \<noteq> QueuePingEvent) evs
          \<and> subseq evs evs' \<and> length evs' \<le> Suc (length evs)"
proof (induction xs arbitrary: evs)
  case Nil
  from Nil.prems(2) show ?case
  proof
    assume "P = []"
    then show ?thesis using Nil.prems(1) by auto
  next
    assume p: "P = [Some QueuePingEvent]"
    have "[] @ P @ ys = map Some (QueuePingEvent # evs) @ None # rest"
      using Nil.prems(1) p by simp
    moreover have "subseq evs (QueuePingEvent # evs)" by (rule list_emb_Cons) simp
    ultimately show ?thesis by (intro exI [of _ "QueuePingEvent # evs"] exI [of _ rest]) simp
  qed
next
  case (Cons x xs)
  show ?case
  proof (cases evs)
    case Nil
    then have "(x # xs) @ P @ ys = map Some [] @ None # (xs @ P @ ys)"
      using Cons.prems(1) by simp
    then show ?thesis using Nil by (intro exI [of _ "[]"] exI [of _ "xs @ P @ ys"]) simp
  next
    case (Cons e evs0)
    then have x: "x = Some e" and tl: "xs @ ys = map Some evs0 @ None # rest"
      using Cons.prems(1) by simp_all
    from Cons.IH [OF tl Cons.prems(2)] obtain evs1 rest1 where
      a: "xs @ P @ ys = map Some evs1 @ None # rest1"
      and f: "filter (\<lambda>e. e \<noteq> QueuePingEvent) evs1 = filter (\<lambda>e. e \<noteq> QueuePingEvent) evs0"
      and sb: "subseq evs0 evs1" and l: "length evs1 \<le> Suc (length evs0)"
      by blast
    have "(x # xs) @ P @ ys = map Some (e # evs1) @ None # rest1" using a x by simp
    moreover have "subseq (e # evs0) (e # evs1)" using sb by (rule subseq_Cons2)
    ultimately show ?thesis
      using f l Cons by (intro exI [of _ "e # evs1"] exI [of _ rest1]) simp
  qed
qed

lemma ping_part_cases: "ping_part env a = [] \<or> ping_part env a = [Some QueuePingEvent]"
  by (simp add: ping_part_def)

lemma drain_with_heartbeats:
  "chan s @ concat (map arrivals pre) = map Some evs @ None # rest
   \<Longrightarrow> \<forall>env\<in>set pre. quiet T env
   \<Longrightarrow> \<forall>env\<in>set post. quiet T env
   \<Longrightarrow> length evs + length pre < length post
   \<Longrightarrow> \<exists>s' ys. listen_loop T (pre @ post) s = (Terminated, s') \<and> yielded s' = yielded s @ ys
          \<and> filter (\<lambda>e. e \<noteq> QueuePingEvent) ys = filter (\<lambda>e. e \<noteq> QueuePingEvent) evs
          \<and> subseq evs ys"
proof (induction pre arbitrary: s evs rest)
  case Nil
  have "\<exists>s'. listen_loop T post s = (Terminated, s') \<and> yielded s' = yielded s @ evs"
    using drain_filled [of s evs rest post T] Nil.prems by simp
  then show ?case by auto
next
  case (Cons env pre)
  note IH = Cons.IH
  note prems = Cons.prems
  have qe: "quiet T env" using prems(2) by simp
  have qpre: "\<forall>e\<in>set pre. quiet T e" using prems(2) by simp
  let ?P = "ping_part env (last_ping_time s)"
  let ?A = "concat (map arrivals pre)"
  have c: "chan (one_pass T env s) = chan (after_get env s) @ ?P"
    by (rule one_pass_quiet [OF qe])
  have all: "(chan s @ arrivals env) @ ?A = map Some evs @ None # rest"
    using prems(1) by simp
  show ?case
  proof (cases "chan s @ arrivals env")
    case Nil
    have "[] @ ?A = map Some evs @ None # rest" using all Nil by simp
    from heartbeat_lands_in_sequence [OF this ping_part_cases [of env "last_ping_time s"]]
    obtain evs1 rest1 where
      a: "[] @ ?P @ ?A = map Some evs1 @ None # rest1"
      and f: "filter (\<lambda>e. e \<noteq> QueuePingEvent) evs1 = filter (\<lambda>e. e \<noteq> QueuePingEvent) evs"
      and sb: "subseq evs evs1" and l: "length evs1 \<le> Suc (length evs)"
      by blast
    have c1: "chan (one_pass T env s) @ ?A = map Some evs1 @ None # rest1"
      using a c Nil by (simp add: after_get_def)
    have y1: "yielded (one_pass T env s) = yielded s"
      using Nil by (simp add: yielded_one_pass after_get_def)
    have len: "length evs1 + length pre < length post" using l prems(4) by simp
    from IH [OF c1 qpre prems(3) len] obtain s' ys where
      r: "listen_loop T (pre @ post) (one_pass T env s) = (Terminated, s')"
      and y: "yielded s' = yielded (one_pass T env s) @ ys"
      and fy: "filter (\<lambda>e. e \<noteq> QueuePingEvent) ys = filter (\<lambda>e. e \<noteq> QueuePingEvent) evs1"
      and sy: "subseq evs1 ys"
      by blast
    have run: "listen_loop T ((env # pre) @ post) s = (Terminated, s')"
      unfolding append_Cons listen_loop_Cons using Nil r by simp
    have "subseq evs ys" using sb sy by (rule subseq_order.trans)
    then show ?thesis using run y y1 fy f by auto
  next
    case (Cons m r0)
    note q = Cons
    show ?thesis
    proof (cases m)
      case None
      have e: "evs = []" using all q None by (cases evs) simp_all
      have run: "listen_loop T ((env # pre) @ post) s = (Terminated, one_pass T env s)"
        unfolding append_Cons listen_loop_Cons using q None by simp
      have "yielded (one_pass T env s) = yielded s @ []"
        using q None by (simp add: yielded_one_pass after_get_def)
      then show ?thesis using run e by (intro exI [of _ "one_pass T env s"] exI [of _ "[]"]) simp
    next
      case (Some ev)
      obtain evs0 where evs: "evs = ev # evs0" using all q Some by (cases evs) auto
      have tl: "r0 @ ?A = map Some evs0 @ None # rest" using all q Some evs by simp
      from heartbeat_lands_in_sequence [OF tl ping_part_cases [of env "last_ping_time s"]]
      obtain evs1 rest1 where
        a: "r0 @ ?P @ ?A = map Some evs1 @ None # rest1"
        and f: "filter (\<lambda>e. e \<noteq> QueuePingEvent) evs1 = filter (\<lambda>e. e \<noteq> QueuePingEvent) evs0"
        and sb: "subseq evs0 evs1" and l: "length evs1 \<le> Suc (length evs0)"
        by blast
      have c1: "chan (one_pass T env s) @ ?A = map Some evs1 @ None # rest1"
        using a c q Some by (simp add: after_get_def)
      have y1: "yielded (one_pass T env s) = yielded s @ [ev]"
        using q Some by (simp add: yielded_one_pass after_get_def)
      have len: "length evs1 + length pre < length post" using l prems(4) evs by simp
      from IH [OF c1 qpre prems(3) len] obtain s' ys where
        r: "listen_loop T (pre @ post) (one_pass T env s) = (Terminated, s')"
        and y: "yielded s' = yielded (one_pass T env s) @ ys"
        and fy: "filter (\<lambda>e. e \<noteq> QueuePingEvent) ys = filter (\<lambda>e. e \<noteq> QueuePingEvent) evs1"
        and sy: "subseq evs1 ys"
        by blast
      have run: "listen_loop T ((env # pre) @ post) s = (Terminated, s')"
        unfolding append_Cons listen_loop_Cons using q Some r by simp
      have "subseq evs0 ys" using sb sy by (rule subseq_order.trans)
      then have s2: "subseq (ev # evs0) (ev # ys)" by (rule subseq_Cons2)
      have y2: "yielded s' = yielded s @ (ev # ys)" using y y1 by simp
      have f2: "filter (\<lambda>e. e \<noteq> QueuePingEvent) (ev # ys)
                  = filter (\<lambda>e. e \<noteq> QueuePingEvent) (ev # evs0)"
        using fy f by simp
      show ?thesis using run y2 f2 s2 evs by blast
    qed
  qed
qed

text \<open>
  C1, amended. Let the channel at the start of \<open>listen\<close>, followed by what arrives during
  the passes \<open>pre\<close>, be the published events \<open>evs\<close>, then the close sentinel, then
  anything. If no pass observes the max execution time reached or the stop flag set, and
  enough passes follow \<open>pre\<close> (more than \<open>length evs + length pre\<close>), then \<open>listen\<close>
  leaves through \<open>break\<close>, and what it has yielded holds the published events as a
  subsequence, in publish order, and nothing else but Ping events: with the Pings removed
  on both sides, the yielded events are the published ones. If moreover no pass of \<open>pre\<close>
  observes 10 or more elapsed units, it has yielded exactly \<open>evs\<close>. With \<open>pre = []\<close>
  this is the case where the events and the sentinel are on the channel before \<open>listen\<close>
  starts; then the clock may pass any number of boundaries and anything may arrive later,
  since all of it lands behind the sentinel.
\<close>

theorem listen_drains_in_publish_order:
  assumes "q @ concat (map arrivals pre) = map Some evs @ None # rest"
    and "\<forall>env\<in>set (pre @ post). elapsed_time env < real_of_int T \<and> \<not> stopped env"
    and "length evs + length pre < length post"
  shows "\<exists>s'. listen T (pre @ post) q = (Terminated, s')
           \<and> subseq evs (yielded s')
           \<and> filter (\<lambda>e. e \<noteq> QueuePingEvent) (yielded s') = filter (\<lambda>e. e \<noteq> QueuePingEvent) evs
           \<and> ((\<forall>env\<in>set pre. elapsed_time env < 10) \<longrightarrow> yielded s' = evs)"
proof -
  let ?s = "\<lparr>chan = q, last_ping_time = 0, yielded = []\<rparr>"
  have a: "chan ?s @ concat (map arrivals pre) = map Some evs @ None # rest"
    using assms(1) by simp
  have qpre: "\<forall>env\<in>set pre. quiet T env" using assms(2) by (simp add: quiet_def)
  have qpost: "\<forall>env\<in>set post. quiet T env" using assms(2) by (simp add: quiet_def)
  from drain_with_heartbeats [OF a qpre qpost assms(3)] obtain s' ys where
    run: "listen_loop T (pre @ post) ?s = (Terminated, s')"
    and y: "yielded s' = yielded ?s @ ys"
    and f: "filter (\<lambda>e. e \<noteq> QueuePingEvent) ys = filter (\<lambda>e. e \<noteq> QueuePingEvent) evs"
    and sb: "subseq evs ys"
    by blast
  have exact: "yielded s' = evs" if early: "\<forall>env\<in>set pre. elapsed_time env < 10"
  proof -
    have b: "\<forall>env\<in>set pre. quiet T env \<and> \<lfloor>elapsed_time env / 10\<rfloor> \<le> last_ping_time ?s"
    proof
      fix env assume m: "env \<in> set pre"
      then have "elapsed_time env / 10 < 1" using early by simp
      then have "\<lfloor>elapsed_time env / 10\<rfloor> \<le> 0" by (simp add: floor_le_iff)
      then show "quiet T env \<and> \<lfloor>elapsed_time env / 10\<rfloor> \<le> last_ping_time ?s"
        using qpre m by simp
    qed
    have len: "length evs < length post" using assms(3) by simp
    from drain_general [OF a b qpost len] obtain s2 where
      "listen_loop T (pre @ post) ?s = (Terminated, s2)" "yielded s2 = yielded ?s @ evs"
      by blast
    then show ?thesis using run by simp
  qed
  show ?thesis using run y f sb exact by (simp add: listen_def)
qed

theorem listen_drains_in_publish_order_witness:
  "fst (listen 100
          ([\<lparr>arrivals = [], elapsed_time = 12, stopped = False\<rparr>,
            \<lparr>arrivals = [Some (QueueOtherEvent ''chunk'' []), None], elapsed_time = 13,
               stopped = False\<rparr>]
           @ [\<lparr>arrivals = [], elapsed_time = 14, stopped = False\<rparr>,
              \<lparr>arrivals = [], elapsed_time = 25, stopped = False\<rparr>,
              \<lparr>arrivals = [Some QueuePingEvent], elapsed_time = 26, stopped = False\<rparr>,
              \<lparr>arrivals = [], elapsed_time = 27, stopped = False\<rparr>])
          []) = Terminated
   \<and> filter (\<lambda>e. e \<noteq> QueuePingEvent) (yielded (snd (listen 100
          ([\<lparr>arrivals = [], elapsed_time = 12, stopped = False\<rparr>,
            \<lparr>arrivals = [Some (QueueOtherEvent ''chunk'' []), None], elapsed_time = 13,
               stopped = False\<rparr>]
           @ [\<lparr>arrivals = [], elapsed_time = 14, stopped = False\<rparr>,
              \<lparr>arrivals = [], elapsed_time = 25, stopped = False\<rparr>,
              \<lparr>arrivals = [Some QueuePingEvent], elapsed_time = 26, stopped = False\<rparr>,
              \<lparr>arrivals = [], elapsed_time = 27, stopped = False\<rparr>])
          [])))
     = [QueueOtherEvent ''chunk'' []]"
proof -
  let ?pre = "[\<lparr>arrivals = [], elapsed_time = 12, stopped = False\<rparr>,
            \<lparr>arrivals = [Some (QueueOtherEvent ''chunk'' []), None], elapsed_time = 13,
               stopped = False\<rparr>]"
  let ?post = "[\<lparr>arrivals = [], elapsed_time = 14, stopped = False\<rparr>,
              \<lparr>arrivals = [], elapsed_time = 25, stopped = False\<rparr>,
              \<lparr>arrivals = [Some QueuePingEvent], elapsed_time = 26, stopped = False\<rparr>,
              \<lparr>arrivals = [], elapsed_time = 27, stopped = False\<rparr>]"
  let ?evs = "[QueueOtherEvent ''chunk'' []]"
  have h1: "[] @ concat (map arrivals ?pre) = map Some ?evs @ None # []" by simp
  have h2: "\<forall>env\<in>set (?pre @ ?post). elapsed_time env < real_of_int 100 \<and> \<not> stopped env"
    by simp
  have h3: "length ?evs + length ?pre < length ?post" by simp
  from listen_drains_in_publish_order [OF h1 h2 h3]
  obtain s' where "listen 100 (?pre @ ?post) [] = (Terminated, s')"
    "filter (\<lambda>e. e \<noteq> QueuePingEvent) (yielded s') = filter (\<lambda>e. e \<noteq> QueuePingEvent) ?evs"
    by blast
  then show ?thesis by simp
qed

end
